theory Spec2Isabelle
  imports Complex_Main "HOL-Library.Word"
begin

unbundle bit_operations_syntax

section \<open>JavaScript values used by MediaComparator\<close>

text \<open>
  Errors the runtime raises inside the modelled functions: a \<open>RangeError\<close> when a
  \<open>BigUint64Array\<close> is created over a buffer whose byte length is not a multiple of 8,
  a \<open>TypeError\<close> when a BigInt is combined with \<open>undefined\<close> or a property of
  \<open>undefined\<close> is read.
\<close>

datatype error = RangeError | TypeError

text \<open>
  A JavaScript \<open>number\<close> as the similarity code produces it: a finite value, one of the
  two infinities, or NaN. Finite values are exact reals (rounding is not modelled).
\<close>

datatype number = Fin real | PInf | NInf | NaN

fun jneg :: "number \<Rightarrow> number" where
  "jneg (Fin a) = Fin (- a)"
| "jneg PInf = NInf"
| "jneg NInf = PInf"
| "jneg NaN = NaN"

fun jadd :: "number \<Rightarrow> number \<Rightarrow> number" where
  "jadd NaN _ = NaN"
| "jadd _ NaN = NaN"
| "jadd (Fin a) (Fin b) = Fin (a + b)"
| "jadd PInf NInf = NaN"
| "jadd NInf PInf = NaN"
| "jadd PInf _ = PInf"
| "jadd NInf _ = NInf"
| "jadd _ PInf = PInf"
| "jadd _ NInf = NInf"

definition jsub :: "number \<Rightarrow> number \<Rightarrow> number" where
  "jsub a b = jadd a (jneg b)"

text \<open>Division; every divisor in the code is a length, so a zero divisor is \<open>+0\<close>.\<close>

fun jdiv :: "number \<Rightarrow> number \<Rightarrow> number" where
  "jdiv NaN _ = NaN"
| "jdiv _ NaN = NaN"
| "jdiv (Fin a) (Fin b) =
     (if b \<noteq> 0 then Fin (a / b)
      else if 0 < a then PInf else if a < 0 then NInf else NaN)"
| "jdiv (Fin a) _ = Fin 0"
| "jdiv PInf (Fin b) = (if 0 \<le> b then PInf else NInf)"
| "jdiv NInf (Fin b) = (if 0 \<le> b then NInf else PInf)"
| "jdiv _ _ = NaN"

text \<open>The comparisons \<open><=\<close> and \<open><\<close>; both are false as soon as one side is NaN.\<close>

fun jle :: "number \<Rightarrow> number \<Rightarrow> bool" where
  "jle NaN _ = False"
| "jle _ NaN = False"
| "jle (Fin a) (Fin b) = (a \<le> b)"
| "jle NInf _ = True"
| "jle _ PInf = True"
| "jle _ _ = False"

fun jlt :: "number \<Rightarrow> number \<Rightarrow> bool" where
  "jlt NaN _ = False"
| "jlt _ NaN = False"
| "jlt (Fin a) (Fin b) = (a < b)"
| "jlt PInf _ = False"
| "jlt _ NInf = False"
| "jlt _ _ = True"

definition jge :: "number \<Rightarrow> number \<Rightarrow> bool" where
  "jge a b = jle b a"

definition jgt :: "number \<Rightarrow> number \<Rightarrow> bool" where
  "jgt a b = jlt b a"

text \<open>\<open>Math.min\<close> and \<open>Math.max\<close>: NaN as soon as one argument is NaN.\<close>

definition jmin :: "number \<Rightarrow> number \<Rightarrow> number" where
  "jmin a b = (if a = NaN \<or> b = NaN then NaN else if jle a b then a else b)"

definition jmax :: "number \<Rightarrow> number \<Rightarrow> number" where
  "jmax a b = (if a = NaN \<or> b = NaN then NaN else if jle a b then b else a)"

section \<open>Hamming distance (MediaComparator.ts, lines 34--75)\<close>

text \<open>A \<open>SharedArrayBuffer\<close> is its sequence of bytes.\<close>

type_synonym buffer = "8 word list"

text \<open>
  \<open>popcount64\<close> works on BigInts, which are unbounded integers: nothing truncates the
  product of the last line to 64 bits.
\<close>

definition popcount64 :: "int \<Rightarrow> int" where
  "popcount64 n0 =
     (let n1 = n0 - (drop_bit 1 n0 AND 0x5555555555555555);
          n2 = (n1 AND 0x3333333333333333) + (drop_bit 2 n1 AND 0x3333333333333333);
          n3 = (n2 + drop_bit 4 n2) AND 0x0f0f0f0f0f0f0f0f
      in drop_bit 56 (n3 * 0x0101010101010101))"

definition popcount8 :: "int \<Rightarrow> int" where
  "popcount8 n0 =
     (let n1 = n0 - (drop_bit 1 n0 AND 0x55);
          n2 = (n1 AND 0x33) + (drop_bit 2 n1 AND 0x33)
      in (n2 + drop_bit 4 n2) AND 0x0f)"

text \<open>One element of a \<open>BigUint64Array\<close>: eight bytes, least significant first.\<close>

fun leWord :: "buffer \<Rightarrow> int" where
  "leWord [] = 0"
| "leWord (b # bs) = uint b + 256 * leWord bs"

text \<open>
  \<open>new BigUint64Array(buffer)\<close>: a \<open>RangeError\<close> unless the byte length is a multiple
  of 8, else the \<open>byteLength / 8\<close> elements.
\<close>

definition bigUint64Array :: "buffer \<Rightarrow> error + int list" where
  "bigUint64Array h =
     (if length h mod 8 \<noteq> 0 then Inl RangeError
      else Inr (map (\<lambda>i. leWord (take 8 (drop (8 * i) h))) [0..<length h div 8]))"

text \<open>
  The loop over \<open>view1\<close>. Past the end of \<open>view2\<close> the element read is \<open>undefined\<close>,
  and \<open>^\<close> between a BigInt and \<open>undefined\<close> is a \<open>TypeError\<close>.
\<close>

fun chunkLoop :: "int list \<Rightarrow> int list \<Rightarrow> int \<Rightarrow> error + int" where
  "chunkLoop [] _ distance = Inr distance"
| "chunkLoop (x # xs) [] distance = Inl TypeError"
| "chunkLoop (x # xs) (y # ys) distance = chunkLoop xs ys (distance + popcount64 (x XOR y))"

text \<open>
  The loop over the remaining bytes. Past the end of \<open>uint8View2\<close> the element is
  \<open>undefined\<close>, which \<open>^\<close> between numbers reads as 0.
\<close>

definition uint8At :: "buffer \<Rightarrow> nat \<Rightarrow> int" where
  "uint8At h i = (if i < length h then uint (h ! i) else 0)"

definition byteLoop :: "buffer \<Rightarrow> buffer \<Rightarrow> nat \<Rightarrow> int \<Rightarrow> int" where
  "byteLoop hash1 hash2 startIndex distance =
     fold (\<lambda>i d. d + popcount8 (uint8At hash1 i XOR uint8At hash2 i))
       [startIndex..<length hash1] distance"

definition hammingDistance :: "buffer \<Rightarrow> buffer \<Rightarrow> error + int" where
  "hammingDistance hash1 hash2 =
     (case bigUint64Array hash1 of Inl e \<Rightarrow> Inl e | Inr view1 \<Rightarrow>
      case bigUint64Array hash2 of Inl e \<Rightarrow> Inl e | Inr view2 \<Rightarrow>
      case chunkLoop view1 view2 0 of Inl e \<Rightarrow> Inl e | Inr distance \<Rightarrow>
        (let remainingBytes = length hash1 mod 8
         in if 0 < remainingBytes
            then Inr (byteLoop hash1 hash2 (length hash1 - remainingBytes) distance)
            else Inr distance))"

section \<open>Media data (src/types, as MediaComparator.ts uses it)\<close>

record FrameInfo =
  hash :: buffer
  timestamp :: real

record MediaInfo =
  duration :: real
  frames :: "FrameInfo list"

record SimilarityConfig =
  imageSimilarityThreshold :: real
  imageVideoSimilarityThreshold :: real
  videoSimilarityThreshold :: real
  stepSize :: real

section \<open>The similarity kernel (MediaComparator.ts, lines 378--504)\<close>

text \<open>\<open>xs[0]\<close>: \<open>undefined\<close> (here \<open>None\<close>) on an empty array.\<close>

definition first :: "'a list \<Rightarrow> 'a option" where
  "first xs = (case xs of [] \<Rightarrow> None | x # _ \<Rightarrow> Some x)"

text \<open>
  \<open>calculateImageSimilarity\<close> reads \<open>frame1.hash\<close> and \<open>frame2.hash\<close> before anything
  else: a \<open>TypeError\<close> when a frame is \<open>undefined\<close>.
\<close>

definition calculateImageSimilarity ::
  "FrameInfo option \<Rightarrow> FrameInfo option \<Rightarrow> error + number" where
  "calculateImageSimilarity frame1 frame2 =
     (case frame1 of None \<Rightarrow> Inl TypeError | Some f1 \<Rightarrow>
      case frame2 of None \<Rightarrow> Inl TypeError | Some f2 \<Rightarrow>
      case hammingDistance (hash f1) (hash f2) of Inl e \<Rightarrow> Inl e | Inr distance \<Rightarrow>
        (let maxDistance = length (hash f1) * 8
         in Inr (jsub (Fin 1) (jdiv (Fin (of_int distance)) (Fin (of_nat maxDistance))))))"

fun imageVideoLoop ::
  "SimilarityConfig \<Rightarrow> FrameInfo \<Rightarrow> FrameInfo list \<Rightarrow> number \<Rightarrow> error + number" where
  "imageVideoLoop cfg imageFrame [] bestSimilarity = Inr bestSimilarity"
| "imageVideoLoop cfg imageFrame (videoFrame # rest) bestSimilarity =
     (case calculateImageSimilarity (Some imageFrame) (Some videoFrame) of
        Inl e \<Rightarrow> Inl e
      | Inr similarity \<Rightarrow>
          if jgt similarity bestSimilarity
          then (if jge similarity (Fin (imageVideoSimilarityThreshold cfg))
                then Inr similarity
                else imageVideoLoop cfg imageFrame rest similarity)
          else imageVideoLoop cfg imageFrame rest bestSimilarity)"

definition calculateImageVideoSimilarity ::
  "SimilarityConfig \<Rightarrow> MediaInfo \<Rightarrow> MediaInfo \<Rightarrow> error + number" where
  "calculateImageVideoSimilarity cfg img video =
     (if frames img = [] \<or> frames video = [] then Inr (Fin 0)
      else imageVideoLoop cfg (hd (frames img)) (frames video) (Fin 0))"

definition getFramesInTimeRange :: "MediaInfo \<Rightarrow> real \<Rightarrow> real \<Rightarrow> FrameInfo list" where
  "getFramesInTimeRange media startTime endTime =
     filter (\<lambda>frame. startTime \<le> timestamp frame \<and> timestamp frame \<le> endTime) (frames media)"

text \<open>
  The dynamic time warping of \<open>calculateSequenceSimilarityDTW\<close>. \<open>dtwInner\<close> is the loop
  over \<open>j\<close> for one frame \<open>seq1[i - 1]\<close>, \<open>dtwOuter\<close> the loop over \<open>i\<close>. All the indices
  the loops read are in range.
\<close>

definition jmin3 :: "number \<Rightarrow> number \<Rightarrow> number \<Rightarrow> number" where
  "jmin3 a b c = jmin (jmin a b) c"

function dtwInner ::
  "FrameInfo \<Rightarrow> FrameInfo list \<Rightarrow> nat \<Rightarrow> number \<Rightarrow> number list \<Rightarrow> error + number list" where
  "dtwInner f1 seq2 j prev dtw =
     (if j \<le> length seq2
      then (let temp = dtw ! j
            in case calculateImageSimilarity (Some f1) (Some (seq2 ! (j - 1))) of
                 Inl e \<Rightarrow> Inl e
               | Inr s \<Rightarrow>
                   (let cost = jsub (Fin 1) s
                    in dtwInner f1 seq2 (j + 1) temp
                         (dtw[j := jadd cost (jmin3 prev (dtw ! j) (dtw ! (j - 1)))])))
      else Inr dtw)"
  by pat_completeness auto
termination
  by (relation "measure (\<lambda>(f1, seq2, j, prev, dtw). Suc (length seq2) - j)") auto

declare dtwInner.simps [simp del]

fun dtwOuter :: "FrameInfo list \<Rightarrow> FrameInfo list \<Rightarrow> number list \<Rightarrow> error + number list" where
  "dtwOuter [] seq2 dtw = Inr dtw"
| "dtwOuter (f1 # rest) seq2 dtw =
     (let prev = dtw ! 0
      in case dtwInner f1 seq2 1 prev (dtw[0 := PInf]) of
           Inl e \<Rightarrow> Inl e
         | Inr dtw' \<Rightarrow> dtwOuter rest seq2 dtw')"

definition calculateSequenceSimilarityDTW ::
  "FrameInfo list \<Rightarrow> FrameInfo list \<Rightarrow> error + number" where
  "calculateSequenceSimilarityDTW seq1 seq2 =
     (let m = length seq1; n = length seq2;
          dtw = (replicate (n + 1) PInf)[0 := Fin 0]
      in case dtwOuter seq1 seq2 dtw of
           Inl e \<Rightarrow> Inl e
         | Inr dtw' \<Rightarrow>
             Inr (jsub (Fin 1) (jdiv (dtw' ! n) (jmax (Fin (of_nat m)) (Fin (of_nat n))))))"

text \<open>
  The sliding window of \<open>calculateVideoSimilarity\<close>. With a step that is not positive the
  loop need not end, so it is a partial function: \<open>None\<close> is a run that never returns.
\<close>

partial_function (option) videoLoop ::
  "SimilarityConfig \<Rightarrow> MediaInfo \<Rightarrow> MediaInfo \<Rightarrow> real \<Rightarrow> number \<Rightarrow> (error + number) option" where
  "videoLoop cfg shorterMedia longerMedia startTime bestSimilarity =
     (if startTime \<le> duration longerMedia - duration shorterMedia
      then (let endTime = startTime + duration shorterMedia;
                longerSubseq = getFramesInTimeRange longerMedia startTime endTime;
                shorterSubseq = frames shorterMedia
            in case calculateSequenceSimilarityDTW longerSubseq shorterSubseq of
                 Inl e \<Rightarrow> Some (Inl e)
               | Inr windowSimilarity \<Rightarrow>
                   (let best = jmax bestSimilarity windowSimilarity
                    in if jge best (Fin (videoSimilarityThreshold cfg))
                       then Some (Inr best)
                       else videoLoop cfg shorterMedia longerMedia (startTime + stepSize cfg) best))
      else Some (Inr bestSimilarity))"

declare videoLoop.simps [code]

definition calculateVideoSimilarity ::
  "SimilarityConfig \<Rightarrow> MediaInfo \<Rightarrow> MediaInfo \<Rightarrow> (error + number) option" where
  "calculateVideoSimilarity cfg media1 media2 =
     (let (shorterMedia, longerMedia) =
            (if duration media1 \<le> duration media2 then (media1, media2) else (media2, media1))
      in videoLoop cfg shorterMedia longerMedia 0 (Fin 0))"

definition calculateSimilarity ::
  "SimilarityConfig \<Rightarrow> MediaInfo \<Rightarrow> MediaInfo \<Rightarrow> (error + number) option" where
  "calculateSimilarity cfg media1 media2 =
     (let isImage1 = (duration media1 = 0); isImage2 = (duration media2 = 0)
      in if isImage1 \<and> isImage2
         then Some (calculateImageSimilarity (first (frames media1)) (first (frames media2)))
         else if isImage1 \<or> isImage2
         then Some (calculateImageVideoSimilarity cfg
                      (if isImage1 then media1 else media2)
                      (if isImage1 then media2 else media1))
         else calculateVideoSimilarity cfg media1 media2)"

definition getAdaptiveThreshold :: "SimilarityConfig \<Rightarrow> MediaInfo \<Rightarrow> MediaInfo \<Rightarrow> real" where
  "getAdaptiveThreshold cfg media1 media2 =
     (let isImage1 = (duration media1 = 0); isImage2 = (duration media2 = 0)
      in if isImage1 \<and> isImage2 then imageSimilarityThreshold cfg
         else if isImage1 \<or> isImage2 then imageVideoSimilarityThreshold cfg
         else videoSimilarityThreshold cfg)"

text \<open>
  The table behind the rolling row: \<open>dtwTable c i j\<close> is \<open>row[j]\<close> after the \<open>i\<close>-th pass of
  the outer loop, for the cost \<open>c i j\<close> of matching frame \<open>i\<close> of the first sequence with
  frame \<open>j\<close> of the second (both counted from 1). \<open>frameCost\<close> is that cost,
  \<open>1 - imageSim(S1[i - 1], S2[j - 1])\<close>.
\<close>

fun dtwTable :: "(nat \<Rightarrow> nat \<Rightarrow> number) \<Rightarrow> nat \<Rightarrow> nat \<Rightarrow> number" where
  "dtwTable c 0 0 = Fin 0"
| "dtwTable c 0 (Suc j) = PInf"
| "dtwTable c (Suc i) 0 = PInf"
| "dtwTable c (Suc i) (Suc j) =
     jadd (c (Suc i) (Suc j))
       (jmin3 (dtwTable c i j) (dtwTable c i (Suc j)) (dtwTable c (Suc i) j))"

definition frameCost :: "FrameInfo list \<Rightarrow> FrameInfo list \<Rightarrow> nat \<Rightarrow> nat \<Rightarrow> number" where
  "frameCost seq1 seq2 i j =
     jsub (Fin 1)
       (projr (calculateImageSimilarity (Some (seq1 ! (i - 1))) (Some (seq2 ! (j - 1)))))"

section \<open>The cached job (src/jobs/BaseFileInfoJob.ts)\<close>









section \<open>File information (src/types, as MediaComparator.ts uses it)\<close>

text \<open>
  Optional fields are \<open>option\<close>s, \<open>None\<close> for \<open>undefined\<close>. The field \<open>size\<close> of the file
  statistics is \<open>size'\<close> here.
\<close>

record Metadata =
  imageDate :: "int option"
  gpsLatitude :: "real option"
  gpsLongitude :: "real option"
  cameraModel :: "string option"
  width :: real
  height :: real

record FileStats =
  size' :: real

record FileInfo =
  media :: MediaInfo
  metadata :: Metadata
  fileStats :: FileStats

text \<open>Truthiness of an optional number (\<open>undefined\<close> and 0 are falsy) and of an optional string.\<close>

definition truthyNumber :: "real option \<Rightarrow> bool" where
  "truthyNumber x = (case x of None \<Rightarrow> False | Some v \<Rightarrow> v \<noteq> 0)"

definition truthyString :: "string option \<Rightarrow> bool" where
  "truthyString x = (case x of None \<Rightarrow> False | Some v \<Rightarrow> v \<noteq> [])"

fun jmul :: "number \<Rightarrow> number \<Rightarrow> number" where
  "jmul NaN _ = NaN"
| "jmul _ NaN = NaN"
| "jmul (Fin a) (Fin b) = Fin (a * b)"
| "jmul (Fin a) PInf = (if a = 0 then NaN else if 0 < a then PInf else NInf)"
| "jmul (Fin a) NInf = (if a = 0 then NaN else if 0 < a then NInf else PInf)"
| "jmul PInf (Fin b) = (if b = 0 then NaN else if 0 < b then PInf else NInf)"
| "jmul NInf (Fin b) = (if b = 0 then NaN else if 0 < b then NInf else PInf)"
| "jmul PInf PInf = PInf"
| "jmul PInf NInf = NInf"
| "jmul NInf PInf = NInf"
| "jmul NInf NInf = PInf"

text \<open>\<open>Math.log\<close> and \<open>Math.sqrt\<close> on a finite argument.\<close>

definition jlog :: "real \<Rightarrow> number" where
  "jlog x = (if 0 < x then Fin (ln x) else if x = 0 then NInf else NaN)"

definition jsqrt :: "real \<Rightarrow> number" where
  "jsqrt x = (if 0 \<le> x then Fin (sqrt x) else NaN)"

section \<open>Representative selection (MediaComparator.ts, lines 289--376)\<close>

definition calculateEntryScore :: "FileInfo \<Rightarrow> number" where
  "calculateEntryScore fileInfo =
     (let score0 = Fin 0;
          score1 = (if 0 < duration (media fileInfo) then jadd score0 (Fin 10000) else score0);
          score2 = jadd score1 (jmul (jlog (duration (media fileInfo) + 1)) (Fin 100));
          score3 = (if imageDate (metadata fileInfo) \<noteq> None
                    then jadd score2 (Fin 2000) else score2);
          score4 = (if truthyNumber (gpsLatitude (metadata fileInfo))
                       \<and> truthyNumber (gpsLongitude (metadata fileInfo))
                    then jadd score3 (Fin 300) else score3);
          score5 = (if truthyString (cameraModel (metadata fileInfo))
                    then jadd score4 (Fin 200) else score4);
          score6 = (if width (metadata fileInfo) \<noteq> 0 \<and> height (metadata fileInfo) \<noteq> 0
                    then jadd score5
                           (jsqrt (width (metadata fileInfo) * height (metadata fileInfo)))
                    else score5)
      in jadd score6 (jmul (jlog (size' (fileStats fileInfo))) (Fin 5)))"

definition getQuality :: "FileInfo \<Rightarrow> real" where
  "getQuality fileInfo = width (metadata fileInfo) * height (metadata fileInfo)"

text \<open>
  \<open>Array.prototype.sort\<close> with the comparator \<open>(a, b) => b.score - a.score\<close>. The sort is
  stable, and \<open>a\<close> goes behind \<open>b\<close> when the comparator is positive (a NaN is read as 0).
  For scores without NaN the comparator is consistent and every stable sort returns the
  list this insertion sort returns; with a NaN score the order is left to the engine.
\<close>

fun insertScored :: "string \<times> number \<Rightarrow> (string \<times> number) list \<Rightarrow> (string \<times> number) list" where
  "insertScored a [] = [a]"
| "insertScored a (b # bs) =
     (if jgt (jsub (snd b) (snd a)) (Fin 0) then b # insertScored a bs else a # b # bs)"

definition sortScored :: "(string \<times> number) list \<Rightarrow> (string \<times> number) list" where
  "sortScored xs = foldr insertScored xs []"

definition scoreEntries :: "(string \<Rightarrow> FileInfo) \<Rightarrow> string list \<Rightarrow> string list" where
  "scoreEntries selector entries =
     map fst (sortScored (map (\<lambda>entry. (entry, calculateEntryScore (selector entry))) entries))"

text \<open>
  A \<open>Set<string>\<close> is the list of its elements in insertion order; \<open>setAdd\<close> is \<open>add\<close> and
  \<open>newSet\<close> is \<open>new Set(array)\<close>.
\<close>

definition setAdd :: "'a \<Rightarrow> 'a list \<Rightarrow> 'a list" where
  "setAdd x s = (if x \<in> set s then s else s @ [x])"

definition newSet :: "'a list \<Rightarrow> 'a list" where
  "newSet xs = fold setAdd xs []"

record DuplicateSet =
  bestFile :: "string option"
  representatives :: "string list"
  duplicates :: "string list"

record DeduplicationResult =
  uniqueFiles :: "string list"
  duplicateSets :: "DuplicateSet list"

text \<open>
  \<open>handleMultiFrameBest\<close> and \<open>selectRepresentatives\<close> call back into
  \<open>deduplicateFiles\<close>, here the argument \<open>dedup\<close> (\<open>None\<close> when that call does not return).
  \<open>handleMultiFrameBest\<close> is private and only called with the at least two sorted entries
  of \<open>selectRepresentatives\<close>.
\<close>

definition handleMultiFrameBest ::
  "(string list \<Rightarrow> DeduplicationResult option) \<Rightarrow> (string \<Rightarrow> FileInfo) \<Rightarrow> string list
     \<Rightarrow> string list option" where
  "handleMultiFrameBest dedup selector sortedEntries =
     (let bestEntry = hd sortedEntries;
          bestFileInfo = selector bestEntry;
          potentialCaptures =
            filter (\<lambda>entry.
                      let fileInfo = selector entry
                      in duration (media fileInfo) = 0
                         \<and> getQuality bestFileInfo \<le> getQuality fileInfo
                         \<and> (imageDate (metadata bestFileInfo) = None
                              \<or> imageDate (metadata fileInfo) \<noteq> None))
                   sortedEntries
      in if potentialCaptures \<noteq> []
         then (case dedup potentialCaptures of
                 None \<Rightarrow> None
               | Some r \<Rightarrow> Some ([bestEntry] @ uniqueFiles r))
         else Some [bestEntry])"

definition selectRepresentatives ::
  "(string list \<Rightarrow> DeduplicationResult option) \<Rightarrow> (string \<Rightarrow> FileInfo) \<Rightarrow> string list
     \<Rightarrow> string list option" where
  "selectRepresentatives dedup selector cluster =
     (if length cluster \<le> 1 then Some cluster
      else (let sortedEntries = scoreEntries selector cluster;
                bestEntry = hd sortedEntries;
                bestFileInfo = selector bestEntry
            in if duration (media bestFileInfo) = 0 then Some [bestEntry]
               else handleMultiFrameBest dedup selector sortedEntries))"

fun processResultsLoop ::
  "(string list \<Rightarrow> DeduplicationResult option) \<Rightarrow> (string \<Rightarrow> FileInfo) \<Rightarrow> string list list
     \<Rightarrow> string list \<Rightarrow> DuplicateSet list \<Rightarrow> DeduplicationResult option" where
  "processResultsLoop dedup selector [] uniqueFiles' duplicateSets' =
     Some \<lparr>uniqueFiles = uniqueFiles', duplicateSets = duplicateSets'\<rparr>"
| "processResultsLoop dedup selector (cluster # rest) uniqueFiles' duplicateSets' =
     (if length cluster = 1
      then processResultsLoop dedup selector rest (setAdd (hd cluster) uniqueFiles') duplicateSets'
      else (let clusterArray = cluster
            in case selectRepresentatives dedup selector clusterArray of
                 None \<Rightarrow> None
               | Some representatives' \<Rightarrow>
                   (let representativeSet = newSet representatives';
                        duplicateSet =
                          newSet (filter (\<lambda>f. f \<notin> set representativeSet) clusterArray)
                    in processResultsLoop dedup selector rest uniqueFiles'
                         (duplicateSets' @
                            [\<lparr>bestFile = first representatives',
                              representatives = representativeSet,
                              duplicates = duplicateSet\<rparr>]))))"

definition processResults ::
  "(string list \<Rightarrow> DeduplicationResult option) \<Rightarrow> (string \<Rightarrow> FileInfo) \<Rightarrow> string list list
     \<Rightarrow> DeduplicationResult option" where
  "processResults dedup selector clusters = processResultsLoop dedup selector clusters [] []"

section \<open>Clustering (MediaComparator.ts, lines 77--241)\<close>

text \<open>
  The comparator with what it is given from outside this file: the similarity
  configuration, \<open>mediaProcessor.processFile\<close>, and the vantage-point tree.
  \<open>vpSearch c files point eps\<close> stands for
  \<open>(await VPTree.build(files, metric)).search(point, {maxDistance: eps, sort: false})\<close>,
  the list of \<open>{point, distance}\<close> found; the class \<open>VPTree\<close> is not among the sources, so
  the search is a parameter. The tree a worker rebuilds with \<open>createVPTreeByRoot\<close> from the
  shared root is that same tree.
\<close>

record comparator =
  similarityConfig :: SimilarityConfig
  mediaProcessor :: "string \<Rightarrow> FileInfo"
  vpSearch :: "string list \<Rightarrow> string \<Rightarrow> real \<Rightarrow> (string \<times> number) list"

definition minThreshold :: "comparator \<Rightarrow> real" where
  "minThreshold c =
     min (min (imageSimilarityThreshold (similarityConfig c))
              (imageVideoSimilarityThreshold (similarityConfig c)))
         (videoSimilarityThreshold (similarityConfig c))"

definition getValidNeighbors ::
  "comparator \<Rightarrow> (string \<Rightarrow> real \<Rightarrow> (string \<times> number) list) \<Rightarrow> string \<Rightarrow> real \<Rightarrow> string list" where
  "getValidNeighbors c search point eps =
     (let neighbors = search point eps;
          media1 = media (mediaProcessor c point);
          result =
            filter (\<lambda>(neighborPoint, neighborDistance).
                      if neighborPoint = point then True
                      else (let similarity = jsub (Fin 1) neighborDistance;
                                media2 = media (mediaProcessor c neighborPoint);
                                threshold = getAdaptiveThreshold (similarityConfig c) media1 media2
                            in jge similarity (Fin threshold)))
                   neighbors
      in map fst result)"

text \<open>
  The \<open>while (stack.length > 0)\<close> loop of \<open>workerDBSCAN\<close>; \<open>pop\<close> takes the last element
  and \<open>push\<close> appends. Nothing in the loop bounds the points a search may return, so it is
  a partial function: \<open>None\<close> is a run that never returns.
\<close>

partial_function (option) expandCluster ::
  "comparator \<Rightarrow> (string \<Rightarrow> real \<Rightarrow> (string \<times> number) list) \<Rightarrow> real \<Rightarrow> nat
     \<Rightarrow> string list \<Rightarrow> string set \<Rightarrow> string list \<Rightarrow> (string set \<times> string list) option" where
  "expandCluster c search eps minPts stack visited cluster =
     (if stack = [] then Some (visited, cluster)
      else if last stack \<in> visited
      then expandCluster c search eps minPts (butlast stack) visited cluster
      else if minPts \<le> length (getValidNeighbors c search (last stack) eps)
      then expandCluster c search eps minPts
             (butlast stack @
                filter (\<lambda>neighbor. neighbor \<notin> insert (last stack) visited)
                  (getValidNeighbors c search (last stack) eps))
             (insert (last stack) visited) (setAdd (last stack) cluster)
      else expandCluster c search eps minPts (butlast stack)
             (insert (last stack) visited) (setAdd (last stack) cluster))"

declare expandCluster.simps [code]

text \<open>The \<open>for (const point of chunk)\<close> loop of \<open>workerDBSCAN\<close>.\<close>

fun scanChunk ::
  "comparator \<Rightarrow> (string \<Rightarrow> real \<Rightarrow> (string \<times> number) list) \<Rightarrow> real \<Rightarrow> nat
     \<Rightarrow> string list \<Rightarrow> string set \<Rightarrow> string list list \<Rightarrow> string list list option" where
  "scanChunk c search eps minPts [] visited clusters = Some clusters"
| "scanChunk c search eps minPts (point # rest) visited clusters =
     (if point \<in> visited then scanChunk c search eps minPts rest visited clusters
      else (let neighbors = getValidNeighbors c search point eps
            in if length neighbors < minPts
               then scanChunk c search eps minPts rest (insert point visited)
                      (clusters @ [[point]])
               else (case expandCluster c search eps minPts neighbors
                            (insert point visited) [point] of
                       None \<Rightarrow> None
                     | Some (visited', cluster) \<Rightarrow>
                         scanChunk c search eps minPts rest visited' (clusters @ [cluster]))))"

definition workerDBSCAN ::
  "comparator \<Rightarrow> (string \<Rightarrow> real \<Rightarrow> (string \<times> number) list) \<Rightarrow> string list
     \<Rightarrow> string list list option" where
  "workerDBSCAN c search chunk =
     (let eps = 1 - minThreshold c; minPts = 2
      in scanChunk c search eps minPts chunk {} [])"

text \<open>
  \<open>mergeAndDeduplicate\<close>. The map holds the cluster of every element seen; the loop over
  the related clusters updates \<open>mergedCluster\<close> and \<open>merged\<close> independently, so it is written
  as two folds;
  \<open>spliceIndexOf\<close> is \<open>merged.splice(merged.indexOf(x), 1)\<close>, which removes the last
  element when \<open>indexOf\<close> is -1. Clusters are compared by their elements: the clusters the
  map holds are never empty and never share an element, so two of them with the same
  elements are the same object.
\<close>

definition relatedClusters :: "(string \<rightharpoonup> string list) \<Rightarrow> string list \<Rightarrow> string list list" where
  "relatedClusters elementToClusterMap cluster =
     fold (\<lambda>element related.
             case elementToClusterMap element of
               None \<Rightarrow> related
             | Some existingCluster \<Rightarrow> setAdd existingCluster related)
          cluster []"

definition spliceIndexOf :: "'a list \<Rightarrow> 'a \<Rightarrow> 'a list" where
  "spliceIndexOf merged x = (if x \<in> set merged then remove1 x merged else butlast merged)"

definition setAll :: "(string \<rightharpoonup> string list) \<Rightarrow> string list \<Rightarrow> (string \<rightharpoonup> string list)" where
  "setAll elementToClusterMap cluster =
     fold (\<lambda>element m. m(element \<mapsto> cluster)) cluster elementToClusterMap"

definition mergeStep ::
  "string list \<Rightarrow> string list list \<times> (string \<rightharpoonup> string list)
     \<Rightarrow> string list list \<times> (string \<rightharpoonup> string list)" where
  "mergeStep cluster st =
     (let merged = fst st; elementToClusterMap = snd st;
          related = relatedClusters elementToClusterMap cluster
      in if related = []
         then (merged @ [cluster], setAll elementToClusterMap cluster)
         else (let mergedCluster = fold (\<lambda>relatedCluster mc. fold setAdd relatedCluster mc)
                                     related cluster;
                   merged' = fold (\<lambda>relatedCluster mg. spliceIndexOf mg relatedCluster)
                               related merged
               in (merged' @ [mergedCluster], setAll elementToClusterMap mergedCluster)))"

definition mergeAndDeduplicate :: "string list list \<Rightarrow> string list list" where
  "mergeAndDeduplicate clusters = fst (fold mergeStep clusters ([], Map.empty))"

text \<open>
  \<open>parallelDBSCAN\<close>: the batches \<open>files.slice(i, i + 2048)\<close>, one \<open>workerDBSCAN\<close> per batch
  (what \<open>workerPool.performDBSCAN\<close> runs in a worker), the results in the order of the
  batches, flattened and merged.
\<close>

function batches :: "nat \<Rightarrow> string list \<Rightarrow> string list list" where
  "batches i files =
     (if i < length files then take 2048 (drop i files) # batches (i + 2048) files else [])"
  by pat_completeness auto
termination
  by (relation "measure (\<lambda>(i, files). length files - i)") auto

declare batches.simps [simp del]

definition parallelDBSCAN :: "comparator \<Rightarrow> string list \<Rightarrow> string list list option" where
  "parallelDBSCAN c files =
     (case those (map (workerDBSCAN c (vpSearch c files)) (batches 0 files)) of
        None \<Rightarrow> None
      | Some results \<Rightarrow> Some (mergeAndDeduplicate (concat results)))"

text \<open>
  \<open>deduplicateFiles\<close>. It is called again from \<open>handleMultiFrameBest\<close>; the first argument
  bounds the depth of these calls, and \<open>None\<close> is a run that does not return within it.
\<close>

fun deduplicateFiles ::
  "nat \<Rightarrow> comparator \<Rightarrow> (string \<Rightarrow> FileInfo) \<Rightarrow> string list \<Rightarrow> DeduplicationResult option" where
  "deduplicateFiles 0 c selector files = None"
| "deduplicateFiles (Suc depth) c selector files =
     (case parallelDBSCAN c files of
        None \<Rightarrow> None
      | Some clusters \<Rightarrow> processResults (deduplicateFiles depth c selector) selector clusters)"

section \<open>Predicates used in the statements\<close>

text \<open>
  A file information as the data model has it: duration, file size, width and height are
  not negative.
\<close>

definition validFileInfo :: "FileInfo \<Rightarrow> bool" where
  "validFileInfo fileInfo \<longleftrightarrow>
     0 \<le> duration (media fileInfo) \<and> 0 \<le> size' (fileStats fileInfo)
     \<and> 0 \<le> width (metadata fileInfo) \<and> 0 \<le> height (metadata fileInfo)"

text \<open>
  All the entries of a result: the unique files, then the representatives and the
  duplicates of every duplicate set.
\<close>

definition allEntries :: "DeduplicationResult \<Rightarrow> string list" where
  "allEntries r =
     uniqueFiles r @ concat (map (\<lambda>ds. representatives ds @ duplicates ds) (duplicateSets r))"

text \<open>
  The invariant of \<open>mergeAndDeduplicate\<close>: the merged clusters are non-empty sets that
  share no element, and the map sends every element of a merged cluster to that cluster
  and no other element anywhere.
\<close>

definition mergeInv :: "string list list \<Rightarrow> (string \<rightharpoonup> string list) \<Rightarrow> bool" where
  "mergeInv merged m \<longleftrightarrow>
     distinct merged
     \<and> (\<forall>cl \<in> set merged. cl \<noteq> [] \<and> distinct cl)
     \<and> (\<forall>a \<in> set merged. \<forall>b \<in> set merged. a \<noteq> b \<longrightarrow> set a \<inter> set b = {})
     \<and> (\<forall>e cl. m e = Some cl \<longleftrightarrow> cl \<in> set merged \<and> e \<in> set cl)"

text \<open>
  \<open>selectRepresentatives\<close> returns for a cluster: the list it returns starts with the best
  entry and holds entries of the cluster only.
\<close>

definition selectsWithin ::
  "(string list \<Rightarrow> DeduplicationResult option) \<Rightarrow> (string \<Rightarrow> FileInfo) \<Rightarrow> string list \<Rightarrow> bool" where
  "selectsWithin dedup selector cluster \<longleftrightarrow>
     (\<exists>reps. selectRepresentatives dedup selector cluster = Some reps \<and> reps \<noteq> []
        \<and> hd reps = hd (scoreEntries selector cluster) \<and> set reps \<subseteq> set cluster)"

text \<open>What claim C4 says of one duplicate set.\<close>

definition bestOfSet :: "(string \<Rightarrow> FileInfo) \<Rightarrow> DuplicateSet \<Rightarrow> bool" where
  "bestOfSet selector ds \<longleftrightarrow>
     (\<exists>best. bestFile ds = Some best \<and> best \<in> set (representatives ds)
        \<and> set (representatives ds) \<inter> set (duplicates ds) = {}
        \<and> (\<forall>x \<in> set (representatives ds) \<union> set (duplicates ds).
              jge (calculateEntryScore (selector best)) (calculateEntryScore (selector x))))"

text \<open>
  Density-reachability, as the expansion loop of \<open>workerDBSCAN\<close> follows it: from the
  points of \<open>start\<close>, through points that are not visited, a step goes from a core point (one
  with at least \<open>minPts\<close> neighbours) to a neighbour of it.
\<close>

inductive_set densityReachable ::
  "(string \<Rightarrow> string list) \<Rightarrow> nat \<Rightarrow> string set \<Rightarrow> string list \<Rightarrow> string set"
  for neighborsOf :: "string \<Rightarrow> string list" and minPts :: nat
    and visited :: "string set" and start :: "string list"
  where
    seed: "q \<in> set start \<Longrightarrow> q \<notin> visited \<Longrightarrow> q \<in> densityReachable neighborsOf minPts visited start"
  | grow: "u \<in> densityReachable neighborsOf minPts visited start \<Longrightarrow>
           minPts \<le> length (neighborsOf u) \<Longrightarrow> q \<in> set (neighborsOf u) \<Longrightarrow> q \<notin> visited \<Longrightarrow>
           q \<in> densityReachable neighborsOf minPts visited start"

section \<open>Properties of the Hamming distance\<close>





lemma chunkLoop_Inr:
  "length xs \<le> length ys \<Longrightarrow> \<exists>r. chunkLoop xs ys d = Inr r"
  by (induction xs ys d rule: chunkLoop.induct) auto

lemma bigUint64Array_length:
  "bigUint64Array h = Inr v \<Longrightarrow> length v = length h div 8"
  by (auto simp: bigUint64Array_def split: if_splits)

lemma bigUint64Array_Inr:
  "length h mod 8 = 0 \<Longrightarrow> \<exists>v. bigUint64Array h = Inr v"
  by (simp add: bigUint64Array_def)






text \<open>
  What does hold of the distance whatever \<open>popcount64\<close> returns: it is symmetric on
  buffers of one length, and 0 between a buffer and itself.
\<close>

lemma chunkLoop_sym:
  "length xs = length ys \<Longrightarrow> chunkLoop xs ys d = chunkLoop ys xs d"
  by (induction xs ys d rule: chunkLoop.induct) (auto simp: xor.commute)

lemma hammingDistance_sym:
  assumes "length h1 = length h2" "length h1 mod 8 = 0"
  shows "hammingDistance h1 h2 = hammingDistance h2 h1"
proof -
  obtain v1 where v1: "bigUint64Array h1 = Inr v1"
    using bigUint64Array_Inr [OF assms(2)] by blast
  obtain v2 where v2: "bigUint64Array h2 = Inr v2"
    using bigUint64Array_Inr [of h2] assms by auto
  have "length v1 = length v2"
    using bigUint64Array_length [OF v1] bigUint64Array_length [OF v2] assms(1) by simp
  then have "chunkLoop v1 v2 0 = chunkLoop v2 v1 0" by (rule chunkLoop_sym)
  then show ?thesis using v1 v2 assms by (simp add: hammingDistance_def split: sum.splits)
qed

lemma popcount64_zero: "popcount64 0 = 0"
  by (simp add: popcount64_def)

lemma chunkLoop_self: "chunkLoop xs xs d = Inr d"
  by (induction xs arbitrary: d) (simp_all add: popcount64_zero)

lemma hammingDistance_self:
  assumes "length h mod 8 = 0"
  shows "hammingDistance h h = Inr 0"
proof -
  obtain v where v: "bigUint64Array h = Inr v"
    using bigUint64Array_Inr [OF assms] by blast
  then show ?thesis using assms by (simp add: hammingDistance_def chunkLoop_self)
qed

text \<open>
  Claim C7 at two 64-bit hashes that differ in bit 8 alone: the distance returned is 257,
  above the 64 bits of the hashes. \<open>popcount64\<close> multiplies BigInts, so the bytes of the
  product above bit 63 are not cut off before the shift.
\<close>

theorem hammingDistance_exceeds_bitlen:
  "hammingDistance [0, 1, 0, 0, 0, 0, 0, 0] [0, 0, 0, 0, 0, 0, 0, 0] = Inr 257
   \<and> int (8 * length [0 :: 8 word, 1, 0, 0, 0, 0, 0, 0]) < 257"
  by code_simp

section \<open>Properties of the similarity kernel\<close>

lemma calculateImageSimilarity_bit8:
  "calculateImageSimilarity (Some \<lparr>hash = [0, 1, 0, 0, 0, 0, 0, 0], timestamp = 0\<rparr>)
     (Some \<lparr>hash = [0, 0, 0, 0, 0, 0, 0, 0], timestamp = 0\<rparr>) = Inr (Fin (- 193 / 64))"
  by code_simp

text \<open>
  Claim C1 at two still images whose 64-bit hashes differ in bit 8 alone: the similarity
  is \<open>1 - 257 / 64\<close>, below 0.
\<close>

theorem calculateSimilarity_below_zero:
  "calculateSimilarity cfg
     \<lparr>duration = 0, frames = [\<lparr>hash = [0, 1, 0, 0, 0, 0, 0, 0], timestamp = 0\<rparr>]\<rparr>
     \<lparr>duration = 0, frames = [\<lparr>hash = [0, 0, 0, 0, 0, 0, 0, 0], timestamp = 0\<rparr>]\<rparr>
   = Some (Inr (Fin (- 193 / 64)))"
  by (simp add: calculateSimilarity_def first_def calculateImageSimilarity_bit8)

text \<open>
  Claim C6 at a still image without frames against a still image with one frame: the
  image-image branch reads \<open>frames[0].hash\<close> of the frameless image and throws.
\<close>

theorem calculateSimilarity_empty_image_throws:
  "calculateSimilarity cfg
     \<lparr>duration = 0, frames = []\<rparr>
     \<lparr>duration = 0, frames = [\<lparr>hash = [0, 0, 0, 0, 0, 0, 0, 0], timestamp = 0\<rparr>]\<rparr>
   = Some (Inl TypeError)"
  by (simp add: calculateSimilarity_def first_def calculateImageSimilarity_def)

subsection \<open>Dynamic time warping\<close>

lemma hammingDistance_Inr:
  assumes "length h1 = length h2" "length h1 mod 8 = 0"
  shows "\<exists>d. hammingDistance h1 h2 = Inr d"
proof -
  obtain v1 where v1: "bigUint64Array h1 = Inr v1"
    using bigUint64Array_Inr [OF assms(2)] by blast
  obtain v2 where v2: "bigUint64Array h2 = Inr v2"
    using bigUint64Array_Inr [of h2] assms by auto
  have "length v1 \<le> length v2"
    using bigUint64Array_length [OF v1] bigUint64Array_length [OF v2] assms(1) by simp
  then obtain r where "chunkLoop v1 v2 0 = Inr r"
    using chunkLoop_Inr by blast
  then show ?thesis
    using v1 v2 assms(2) by (simp add: hammingDistance_def)
qed

lemma calculateImageSimilarity_Inr:
  assumes "length (hash f1) = length (hash f2)" "length (hash f1) mod 8 = 0"
  shows "\<exists>s. calculateImageSimilarity (Some f1) (Some f2) = Inr s"
  using hammingDistance_Inr [OF assms]
  by (auto simp: calculateImageSimilarity_def)

lemma dtwInner_row:
  assumes noerr: "\<forall>f2 \<in> set seq2. \<exists>s. calculateImageSimilarity (Some f1) (Some f2) = Inr s"
    and f1: "f1 = seq1 ! i"
    and len: "length dtw = Suc (length seq2)"
    and j: "1 \<le> j" "j \<le> Suc (length seq2)"
    and new: "\<forall>k<j. dtw ! k = dtwTable (frameCost seq1 seq2) (Suc i) k"
    and old: "\<forall>k. j \<le> k \<and> k \<le> length seq2 \<longrightarrow> dtw ! k = dtwTable (frameCost seq1 seq2) i k"
    and prev: "prev = dtwTable (frameCost seq1 seq2) i (j - 1)"
  shows "\<exists>dtw'. dtwInner f1 seq2 j prev dtw = Inr dtw' \<and> length dtw' = Suc (length seq2)
           \<and> (\<forall>k \<le> length seq2. dtw' ! k = dtwTable (frameCost seq1 seq2) (Suc i) k)"
  using assms
proof (induction f1 seq2 j prev dtw rule: dtwInner.induct)
  case (1 f1 seq2 j prev dtw)
  let ?T = "dtwTable (frameCost seq1 seq2)"
  show ?case
  proof (cases "j \<le> length seq2")
    case False
    then have "j = Suc (length seq2)" using "1.prems"(5) by simp
    then show ?thesis
      using "1.prems"(3,6) False by (subst dtwInner.simps) (simp add: less_Suc_eq_le)
  next
    case True
    obtain j' where j': "j = Suc j'" using "1.prems"(4) by (cases j) auto
    have mem: "seq2 ! (j - 1) \<in> set seq2" using True j' by simp
    then obtain s where s: "calculateImageSimilarity (Some f1) (Some (seq2 ! (j - 1))) = Inr s"
      using "1.prems"(1) by blast
    define v where "v = jadd (jsub (Fin 1) s) (jmin3 prev (dtw ! j) (dtw ! (j - 1)))"
    have cost: "jsub (Fin 1) s = frameCost seq1 seq2 (Suc i) j"
      using s "1.prems"(2) by (simp add: frameCost_def)
    have vj: "v = ?T (Suc i) j"
      using "1.prems"(6,7,8) True cost j' by (simp add: v_def)
    have IH: "\<exists>dtw'. dtwInner f1 seq2 (j + 1) (dtw ! j) (dtw[j := v]) = Inr dtw'
                \<and> length dtw' = Suc (length seq2)
                \<and> (\<forall>k \<le> length seq2. dtw' ! k = ?T (Suc i) k)"
      unfolding v_def
    proof (rule "1.IH" [OF True refl s refl])
      show "\<forall>f2\<in>set seq2. \<exists>s. calculateImageSimilarity (Some f1) (Some f2) = Inr s"
        by (rule "1.prems"(1))
      show "f1 = seq1 ! i" by (rule "1.prems"(2))
      show "length (dtw[j := jadd (jsub (Fin 1) s) (jmin3 prev (dtw ! j) (dtw ! (j - 1)))])
              = Suc (length seq2)"
        using "1.prems"(3) by simp
      show "1 \<le> j + 1" by simp
      show "j + 1 \<le> Suc (length seq2)" using True by simp
      show "\<forall>k<j + 1. dtw[j := jadd (jsub (Fin 1) s) (jmin3 prev (dtw ! j) (dtw ! (j - 1)))] ! k
              = ?T (Suc i) k"
      proof (intro allI impI)
        fix k assume k: "k < j + 1"
        have jl: "j < length dtw" using "1.prems"(3) True by simp
        show "dtw[j := jadd (jsub (Fin 1) s) (jmin3 prev (dtw ! j) (dtw ! (j - 1)))] ! k
                = ?T (Suc i) k"
        proof (cases "k = j")
          case True
          then show ?thesis using jl vj by (simp add: v_def)
        next
          case False
          then have "k < j" using k by simp
          then show ?thesis using "1.prems"(6) False by simp
        qed
      qed
      show "\<forall>k. j + 1 \<le> k \<and> k \<le> length seq2 \<longrightarrow>
              dtw[j := jadd (jsub (Fin 1) s) (jmin3 prev (dtw ! j) (dtw ! (j - 1)))] ! k = ?T i k"
        using "1.prems"(7) by (auto simp: nth_list_update)
      show "dtw ! j = ?T i (j + 1 - 1)"
        using "1.prems"(7) True by simp
    qed
    show ?thesis
      using IH True s by (subst dtwInner.simps) (simp add: v_def Let_def)
  qed
qed


lemma dtwOuter_rows:
  assumes noerr: "\<forall>f1 \<in> set rest. \<forall>f2 \<in> set seq2.
                    \<exists>s. calculateImageSimilarity (Some f1) (Some f2) = Inr s"
    and seq1: "seq1 = pre @ rest"
    and len: "length dtw = Suc (length seq2)"
    and row: "\<forall>k \<le> length seq2. dtw ! k = dtwTable (frameCost seq1 seq2) (length pre) k"
  shows "\<exists>dtw'. dtwOuter rest seq2 dtw = Inr dtw' \<and> length dtw' = Suc (length seq2)
           \<and> (\<forall>k \<le> length seq2. dtw' ! k = dtwTable (frameCost seq1 seq2) (length seq1) k)"
  using assms
proof (induction rest arbitrary: pre dtw)
  case Nil
  then show ?case by simp
next
  case (Cons f1 rest)
  let ?T = "dtwTable (frameCost seq1 seq2)"
  let ?i = "length pre"
  have "\<exists>dtw'. dtwInner f1 seq2 1 (dtw ! 0) (dtw[0 := PInf]) = Inr dtw'
          \<and> length dtw' = Suc (length seq2)
          \<and> (\<forall>k \<le> length seq2. dtw' ! k = ?T (Suc ?i) k)"
  proof (rule dtwInner_row)
    show "\<forall>f2\<in>set seq2. \<exists>s. calculateImageSimilarity (Some f1) (Some f2) = Inr s"
      using Cons.prems(1) by simp
    show "f1 = seq1 ! ?i" using Cons.prems(2) by simp
    show "length (dtw[0 := PInf]) = Suc (length seq2)" using Cons.prems(3) by simp
    show "(1::nat) \<le> 1" by simp
    show "1 \<le> Suc (length seq2)" by simp
    show "\<forall>k<1. dtw[0 := PInf] ! k = ?T (Suc ?i) k" using Cons.prems(3) by simp
    show "\<forall>k. 1 \<le> k \<and> k \<le> length seq2 \<longrightarrow> dtw[0 := PInf] ! k = ?T ?i k"
      using Cons.prems(4) by simp
    show "dtw ! 0 = ?T ?i (1 - 1)" using Cons.prems(4) by simp
  qed
  then obtain dtw1 where d1: "dtwInner f1 seq2 1 (dtw ! 0) (dtw[0 := PInf]) = Inr dtw1"
    and l1: "length dtw1 = Suc (length seq2)"
    and r1: "\<forall>k \<le> length seq2. dtw1 ! k = ?T (Suc ?i) k"
    by blast
  have "\<exists>dtw'. dtwOuter rest seq2 dtw1 = Inr dtw' \<and> length dtw' = Suc (length seq2)
          \<and> (\<forall>k \<le> length seq2. dtw' ! k = ?T (length seq1) k)"
  proof (rule Cons.IH [where pre = "pre @ [f1]"])
    show "\<forall>f1\<in>set rest. \<forall>f2\<in>set seq2. \<exists>s. calculateImageSimilarity (Some f1) (Some f2) = Inr s"
      using Cons.prems(1) by simp
    show "seq1 = (pre @ [f1]) @ rest" using Cons.prems(2) by simp
    show "length dtw1 = Suc (length seq2)" by (rule l1)
    show "\<forall>k\<le>length seq2. dtw1 ! k = ?T (length (pre @ [f1])) k" using r1 by simp
  qed
  then show ?case using d1 by simp
qed

lemma dtw_table:
  assumes "\<forall>f1 \<in> set seq1. \<forall>f2 \<in> set seq2.
             \<exists>s. calculateImageSimilarity (Some f1) (Some f2) = Inr s"
  shows "calculateSequenceSimilarityDTW seq1 seq2 =
           Inr (jsub (Fin 1)
                  (jdiv (dtwTable (frameCost seq1 seq2) (length seq1) (length seq2))
                        (jmax (Fin (of_nat (length seq1))) (Fin (of_nat (length seq2))))))"
proof -
  let ?dtw = "(replicate (length seq2 + 1) PInf)[0 := Fin 0]"
  have init: "\<forall>k \<le> length seq2. ?dtw ! k = dtwTable (frameCost seq1 seq2) (length ([]::FrameInfo list)) k"
  proof (intro allI impI)
    fix k assume "k \<le> length seq2"
    then show "?dtw ! k = dtwTable (frameCost seq1 seq2) (length ([]::FrameInfo list)) k"
      by (cases k) simp_all
  qed
  have "\<exists>dtw'. dtwOuter seq1 seq2 ?dtw = Inr dtw' \<and> length dtw' = Suc (length seq2)
          \<and> (\<forall>k \<le> length seq2. dtw' ! k = dtwTable (frameCost seq1 seq2) (length seq1) k)"
    by (rule dtwOuter_rows [OF assms _ _ init]) simp_all
  then show ?thesis
    by (auto simp: calculateSequenceSimilarityDTW_def Let_def)
qed

text \<open>
  The rolling row is the dynamic program it is meant to be. For frames whose hashes all
  have one length, a multiple of 8 bytes, it ends as row \<open>m\<close> of the table \<open>dtwTable\<close>
  (0 at the origin, \<open>+\<infinity>\<close> on the rest of row 0 and column 0, and
  \<open>cost + min(prev, row[j], row[j - 1])\<close> elsewhere), and the result is
  \<open>1 - row[n] / max(m, n)\<close>.
\<close>

lemma calculateSequenceSimilarityDTW_table:
  assumes "L mod 8 = 0" and "\<forall>f \<in> set seq1 \<union> set seq2. length (hash f) = L"
  shows "calculateSequenceSimilarityDTW seq1 seq2 =
           Inr (jsub (Fin 1)
                  (jdiv (dtwTable (frameCost seq1 seq2) (length seq1) (length seq2))
                        (jmax (Fin (of_nat (length seq1))) (Fin (of_nat (length seq2))))))"
proof -
  have noerr: "\<forall>f1 \<in> set seq1. \<forall>f2 \<in> set seq2.
                 \<exists>s. calculateImageSimilarity (Some f1) (Some f2) = Inr s"
    using assms by (auto intro!: calculateImageSimilarity_Inr)
  show ?thesis by (rule dtw_table [OF noerr])
qed

text \<open>
  Claim C5 where a sequence is empty. No frame of the longer video in the window, against
  one frame of the shorter: the result is \<open>-\<infinity>\<close>, not 0. Both sequences empty: the result
  is NaN, and two videos without frames get the similarity NaN, which
  \<open>calculateVideoSimilarity\<close> passes on (\<open>Math.max(0, NaN)\<close> is NaN).
  \<open>calculateImageVideoSimilarity\<close> has the guard for empty frames that this path lacks.
\<close>

theorem calculateSequenceSimilarityDTW_empty_not_zero:
  "calculateSequenceSimilarityDTW [] [\<lparr>hash = [0, 0, 0, 0, 0, 0, 0, 0], timestamp = 0\<rparr>]
     = Inr NInf
   \<and> calculateSequenceSimilarityDTW [] [] = Inr NaN
   \<and> calculateSimilarity
        \<lparr>imageSimilarityThreshold = 9 / 10, imageVideoSimilarityThreshold = 4 / 5,
          videoSimilarityThreshold = 7 / 10, stepSize = 1\<rparr>
        \<lparr>duration = 1, frames = []\<rparr> \<lparr>duration = 1, frames = []\<rparr>
     = Some (Inr NaN)"
  by code_simp

section \<open>Properties of the cached job\<close>






section \<open>Properties of the clustering\<close>

lemma getValidNeighbors_subset:
  "set (getValidNeighbors c search p eps) \<subseteq> fst ` set (search p eps)"
  by (auto simp: getValidNeighbors_def Let_def)

lemma set_setAdd [simp]: "set (setAdd x s) = insert x (set s)"
  by (auto simp: setAdd_def)

lemma distinct_setAdd [simp]: "distinct (setAdd x s) = distinct s"
  by (auto simp: setAdd_def)

lemma expandCluster_returns:
  assumes fin: "finite U"
    and nb: "\<And>p. set (getValidNeighbors c search p eps) \<subseteq> U"
    and st: "set stack \<subseteq> U"
  shows "\<exists>visited' cluster'.
           expandCluster c search eps minPts stack visited cluster = Some (visited', cluster')
           \<and> visited \<subseteq> visited' \<and> visited' \<subseteq> visited \<union> U
           \<and> set cluster' = set cluster \<union> (visited' - visited)
           \<and> (distinct cluster \<longrightarrow> distinct cluster')
           \<and> ((\<forall>q \<in> set stack. q \<in> visited \<or> P q) \<longrightarrow>
                (\<forall>u q. q \<in> set (getValidNeighbors c search u eps) \<longrightarrow> q \<noteq> u \<longrightarrow> P q) \<longrightarrow>
                (\<forall>q \<in> visited' - visited. P q))"
  using st
proof (induction "card (U - visited)" arbitrary: stack visited cluster rule: less_induct)
  case less
  show ?case
    using less.prems
  proof (induction stack arbitrary: cluster rule: rev_induct)
    case Nil
    show ?case by (subst expandCluster.simps) simp
  next
    case (snoc current stack1)
    show ?case
    proof (cases "current \<in> visited")
      case True
      have "set stack1 \<subseteq> U" using snoc.prems by simp
      from snoc.IH [OF this, of cluster] show ?thesis
        using True by (subst expandCluster.simps) auto
    next
      case False
      let ?N = "getValidNeighbors c search current eps"
      let ?v1 = "insert current visited"
      let ?c1 = "setAdd current cluster"
      have cur: "current \<in> U" using snoc.prems by simp
      have "U - ?v1 \<subset> U - visited" using cur False by auto
      then have dec: "card (U - ?v1) < card (U - visited)"
        using fin by (simp add: psubset_card_mono)
      have step: "\<exists>visited' cluster'.
           expandCluster c search eps minPts stack2 ?v1 ?c1 = Some (visited', cluster')
           \<and> ?v1 \<subseteq> visited' \<and> visited' \<subseteq> ?v1 \<union> U
           \<and> set cluster' = set ?c1 \<union> (visited' - ?v1)
           \<and> (distinct ?c1 \<longrightarrow> distinct cluster')
           \<and> ((\<forall>q \<in> set stack2. q \<in> ?v1 \<or> P q) \<longrightarrow>
                (\<forall>u q. q \<in> set (getValidNeighbors c search u eps) \<longrightarrow> q \<noteq> u \<longrightarrow> P q) \<longrightarrow>
                (\<forall>q \<in> visited' - ?v1. P q))" if "set stack2 \<subseteq> U" for stack2
        by (rule less.hyps [OF dec that])
      let ?stack2 = "if minPts \<le> length ?N
                     then stack1 @ filter (\<lambda>neighbor. neighbor \<notin> ?v1) ?N else stack1"
      have s2: "set ?stack2 \<subseteq> U" using snoc.prems nb [of current] by auto
      obtain visited' cluster' where
        r: "expandCluster c search eps minPts ?stack2 ?v1 ?c1 = Some (visited', cluster')"
        and v1: "?v1 \<subseteq> visited'" and v2: "visited' \<subseteq> ?v1 \<union> U"
        and cl: "set cluster' = set ?c1 \<union> (visited' - ?v1)"
        and di: "distinct ?c1 \<longrightarrow> distinct cluster'"
        and pp: "(\<forall>q \<in> set ?stack2. q \<in> ?v1 \<or> P q) \<longrightarrow>
                (\<forall>u q. q \<in> set (getValidNeighbors c search u eps) \<longrightarrow> q \<noteq> u \<longrightarrow> P q) \<longrightarrow>
                (\<forall>q \<in> visited' - ?v1. P q)"
        using step [OF s2] by blast
      have e: "expandCluster c search eps minPts (stack1 @ [current]) visited cluster
                 = Some (visited', cluster')"
        using r False by (subst expandCluster.simps) (simp split: if_splits)
      have "visited \<subseteq> visited'" using v1 by auto
      moreover have "visited' \<subseteq> visited \<union> U" using v2 cur by auto
      moreover have "set cluster' = set cluster \<union> (visited' - visited)"
        using cl v1 False by auto
      moreover have "distinct cluster \<longrightarrow> distinct cluster'" using di by simp
      moreover have "\<forall>q \<in> visited' - visited. P q"
        if a: "\<forall>q \<in> set (stack1 @ [current]). q \<in> visited \<or> P q"
          and b: "\<forall>u q. q \<in> set (getValidNeighbors c search u eps) \<longrightarrow> q \<noteq> u \<longrightarrow> P q"
      proof -
        have "\<forall>q \<in> set ?stack2. q \<in> ?v1 \<or> P q" using a b by auto
        then have "\<forall>q \<in> visited' - ?v1. P q" using pp b by blast
        moreover have "P current" using a False by simp
        ultimately show ?thesis by auto
      qed
      ultimately show ?thesis using e by blast
    qed
  qed
qed

lemma scanChunk_returns:
  assumes fin: "finite U"
    and nb: "\<And>p. set (getValidNeighbors c search p eps) \<subseteq> U"
    and d: "distinct (concat clusters)"
    and v: "set (concat clusters) = visited"
    and ne: "\<forall>cl \<in> set clusters. cl \<noteq> []"
  shows "\<exists>cs. scanChunk c search eps minPts chunk visited clusters = Some cs
           \<and> distinct (concat cs)
           \<and> visited \<union> set chunk \<subseteq> set (concat cs)
           \<and> set (concat cs) \<subseteq> visited \<union> set chunk \<union> U
           \<and> (\<forall>cl \<in> set cs. cl \<noteq> [])
           \<and> (\<exists>new. cs = clusters @ new)
           \<and> ((\<forall>u q. q \<in> set (getValidNeighbors c search u eps) \<longrightarrow> q \<noteq> u \<longrightarrow>
                     minPts \<le> length (getValidNeighbors c search q eps)) \<longrightarrow>
                (\<forall>p \<in> set chunk. p \<notin> visited \<longrightarrow>
                     length (getValidNeighbors c search p eps) < minPts \<longrightarrow> [p] \<in> set cs))"
  using d v ne
proof (induction chunk arbitrary: visited clusters)
  case Nil
  then show ?case by auto
next
  case (Cons point rest)
  let ?N = "\<lambda>p. getValidNeighbors c search p eps"
  let ?H = "\<forall>u q. q \<in> set (?N u) \<longrightarrow> q \<noteq> u \<longrightarrow> minPts \<le> length (?N q)"
  show ?case
  proof (cases "point \<in> visited")
    case True
    obtain cs where cs: "scanChunk c search eps minPts rest visited clusters = Some cs"
      and 1: "distinct (concat cs)" and 2: "visited \<union> set rest \<subseteq> set (concat cs)"
      and 3: "set (concat cs) \<subseteq> visited \<union> set rest \<union> U"
      and 4: "\<forall>cl \<in> set cs. cl \<noteq> []" and 5: "\<exists>new. cs = clusters @ new"
      and 6: "?H \<longrightarrow> (\<forall>p \<in> set rest. p \<notin> visited \<longrightarrow> length (?N p) < minPts \<longrightarrow> [p] \<in> set cs)"
      using Cons.IH [OF Cons.prems] by blast
    have "scanChunk c search eps minPts (point # rest) visited clusters = Some cs"
      using True cs by simp
    moreover have "visited \<union> set (point # rest) \<subseteq> set (concat cs)" using 2 True by auto
    moreover have "set (concat cs) \<subseteq> visited \<union> set (point # rest) \<union> U" using 3 by auto
    moreover have "?H \<longrightarrow> (\<forall>p \<in> set (point # rest). p \<notin> visited \<longrightarrow>
                      length (?N p) < minPts \<longrightarrow> [p] \<in> set cs)"
      using 6 True by auto
    ultimately show ?thesis using 1 4 5 by blast
  next
    case False
    let ?v1 = "insert point visited"
    show ?thesis
    proof (cases "length (?N point) < minPts")
      case True
      let ?cl1 = "clusters @ [[point]]"
      have d1: "distinct (concat ?cl1)" using Cons.prems(1,2) False by auto
      have s1: "set (concat ?cl1) = ?v1" using Cons.prems(2) by auto
      have n1: "\<forall>cl \<in> set ?cl1. cl \<noteq> []" using Cons.prems(3) by auto
      obtain cs where cs: "scanChunk c search eps minPts rest ?v1 ?cl1 = Some cs"
        and 1: "distinct (concat cs)" and 2: "?v1 \<union> set rest \<subseteq> set (concat cs)"
        and 3: "set (concat cs) \<subseteq> ?v1 \<union> set rest \<union> U"
        and 4: "\<forall>cl \<in> set cs. cl \<noteq> []" and 5: "\<exists>new. cs = ?cl1 @ new"
        and 6: "?H \<longrightarrow> (\<forall>p \<in> set rest. p \<notin> ?v1 \<longrightarrow> length (?N p) < minPts \<longrightarrow> [p] \<in> set cs)"
        using Cons.IH [OF d1 s1 n1] by blast
      have "scanChunk c search eps minPts (point # rest) visited clusters = Some cs"
        using False True cs by simp
      moreover have "visited \<union> set (point # rest) \<subseteq> set (concat cs)" using 2 by auto
      moreover have "set (concat cs) \<subseteq> visited \<union> set (point # rest) \<union> U" using 3 by auto
      moreover have "\<exists>new. cs = clusters @ new" using 5 by auto
      moreover have "[point] \<in> set cs" using 5 by auto
      then have "?H \<longrightarrow> (\<forall>p \<in> set (point # rest). p \<notin> visited \<longrightarrow>
                      length (?N p) < minPts \<longrightarrow> [p] \<in> set cs)"
        using 6 by auto
      ultimately show ?thesis using 1 4 by blast
    next
      case big: False
      obtain visited' cluster where
        e: "expandCluster c search eps minPts (?N point) ?v1 [point] = Some (visited', cluster)"
        and e1: "?v1 \<subseteq> visited'" and e2: "visited' \<subseteq> ?v1 \<union> U"
        and e3: "set cluster = set [point] \<union> (visited' - ?v1)"
        and e4: "distinct [point] \<longrightarrow> distinct cluster"
        and e5: "(\<forall>q \<in> set (?N point). q \<in> ?v1 \<or> minPts \<le> length (?N q)) \<longrightarrow> ?H \<longrightarrow>
                   (\<forall>q \<in> visited' - ?v1. minPts \<le> length (?N q))"
        using expandCluster_returns [where stack = "?N point" and visited = ?v1
                and cluster = "[point]" and minPts = minPts
                and P = "\<lambda>q. minPts \<le> length (?N q)", OF fin nb nb]
        by blast
      let ?cl1 = "clusters @ [cluster]"
      have cv: "set cluster = visited' - visited" using e3 e1 False by auto
      have d1: "distinct (concat ?cl1)" using Cons.prems(1,2) e4 cv by auto
      have s1: "set (concat ?cl1) = visited'" using Cons.prems(2) cv e1 by auto
      have "point \<in> set cluster" using e3 by simp
      then have n1: "\<forall>cl \<in> set ?cl1. cl \<noteq> []" using Cons.prems(3) by auto
      obtain cs where cs: "scanChunk c search eps minPts rest visited' ?cl1 = Some cs"
        and 1: "distinct (concat cs)" and 2: "visited' \<union> set rest \<subseteq> set (concat cs)"
        and 3: "set (concat cs) \<subseteq> visited' \<union> set rest \<union> U"
        and 4: "\<forall>cl \<in> set cs. cl \<noteq> []" and 5: "\<exists>new. cs = ?cl1 @ new"
        and 6: "?H \<longrightarrow> (\<forall>p \<in> set rest. p \<notin> visited' \<longrightarrow> length (?N p) < minPts \<longrightarrow> [p] \<in> set cs)"
        using Cons.IH [OF d1 s1 n1] by blast
      have "scanChunk c search eps minPts (point # rest) visited clusters = Some cs"
        using False big cs e by simp
      moreover have "visited \<union> set (point # rest) \<subseteq> set (concat cs)" using 2 e1 by auto
      moreover have "set (concat cs) \<subseteq> visited \<union> set (point # rest) \<union> U" using 3 e2 by auto
      moreover have "\<exists>new. cs = clusters @ new" using 5 by auto
      moreover have "\<forall>p \<in> set (point # rest). p \<notin> visited \<longrightarrow>
                      length (?N p) < minPts \<longrightarrow> [p] \<in> set cs" if h: ?H
      proof (intro ballI impI)
        fix p assume p: "p \<in> set (point # rest)" "p \<notin> visited" "length (?N p) < minPts"
        have "\<forall>q \<in> set (?N point). q \<in> ?v1 \<or> minPts \<le> length (?N q)" using h by blast
        then have core: "\<forall>q \<in> visited' - ?v1. minPts \<le> length (?N q)" using e5 h by blast
        have "p \<noteq> point" using p(3) big by auto
        moreover have "p \<notin> visited'" using core p(2,3) \<open>p \<noteq> point\<close> by force
        ultimately show "[p] \<in> set cs" using 6 h p by auto
      qed
      ultimately show ?thesis using 1 4 by blast
    qed
  qed
qed

lemma scanChunk_visited:
  "point \<in> visited \<Longrightarrow>
   scanChunk c search eps minPts (point # rest) visited clusters =
   scanChunk c search eps minPts rest visited clusters"
  by simp

lemma scanChunk_single:
  "point \<notin> visited \<Longrightarrow> length (getValidNeighbors c search point eps) < minPts \<Longrightarrow>
   scanChunk c search eps minPts (point # rest) visited clusters =
   scanChunk c search eps minPts rest (insert point visited) (clusters @ [[point]])"
  by simp

lemma scanChunk_expand:
  "point \<notin> visited \<Longrightarrow> \<not> length (getValidNeighbors c search point eps) < minPts \<Longrightarrow>
   expandCluster c search eps minPts (getValidNeighbors c search point eps)
     (insert point visited) [point] = Some (visited', cluster) \<Longrightarrow>
   scanChunk c search eps minPts (point # rest) visited clusters =
   scanChunk c search eps minPts rest visited' (clusters @ [cluster])"
  by simp

lemma scanChunk_append:
  assumes fin: "finite U"
    and nb: "\<And>p. set (getValidNeighbors c search p eps) \<subseteq> U"
    and d: "distinct (concat clusters)"
    and v: "set (concat clusters) = visited"
  shows "scanChunk c search eps minPts (xs @ ys) visited clusters =
           (case scanChunk c search eps minPts xs visited clusters of
              None \<Rightarrow> None
            | Some cs0 \<Rightarrow> scanChunk c search eps minPts ys (set (concat cs0)) cs0)"
  using d v
proof (induction xs arbitrary: visited clusters)
  case Nil
  have "scanChunk c search eps minPts [] visited clusters = Some clusters" by simp
  then show ?case using Nil(2) by (simp only: append_Nil option.case)
next
  case (Cons point rest)
  let ?N = "\<lambda>p. getValidNeighbors c search p eps"
  let ?v1 = "insert point visited"
  show ?case
  proof (cases "point \<in> visited")
    case True
    show ?thesis
      using Cons.IH [OF Cons.prems]
      by (simp only: append_Cons scanChunk_visited [OF True])
  next
    case False
    show ?thesis
    proof (cases "length (?N point) < minPts")
      case True
      have d1: "distinct (concat (clusters @ [[point]]))" using Cons.prems False by auto
      have s1: "set (concat (clusters @ [[point]])) = ?v1" using Cons.prems(2) by auto
      show ?thesis
        using Cons.IH [OF d1 s1]
        by (simp only: append_Cons scanChunk_single [OF False True])
    next
      case big: False
      obtain visited' cluster where
        e: "expandCluster c search eps minPts (?N point) ?v1 [point] = Some (visited', cluster)"
        and e1: "?v1 \<subseteq> visited'"
        and e3: "set cluster = set [point] \<union> (visited' - ?v1)"
        and e4: "distinct [point] \<longrightarrow> distinct cluster"
        using expandCluster_returns [where stack = "?N point" and visited = ?v1
                and cluster = "[point]" and minPts = minPts
                and P = "\<lambda>q. True", OF fin nb nb]
        by blast
      have cv: "set cluster = visited' - visited" using e3 e1 False by auto
      have d1: "distinct (concat (clusters @ [cluster]))" using Cons.prems(1,2) e4 cv by auto
      have s1: "set (concat (clusters @ [cluster])) = visited'" using Cons.prems(2) cv e1 by auto
      show ?thesis
        using Cons.IH [OF d1 s1]
        by (simp only: append_Cons scanChunk_expand [OF False big e])
    qed
  qed
qed

lemma distinct_concat_disjoint:
  assumes "distinct (concat xs)" "i < length xs" "j < length xs" "i \<noteq> j"
  shows "set (xs ! i) \<inter> set (xs ! j) = {}"
  using assms
proof (induction xs arbitrary: i j)
  case Nil
  then show ?case by simp
next
  case (Cons x xs)
  show ?case
  proof (cases i)
    case 0
    then obtain j' where j': "j = Suc j'" using Cons.prems(4) by (cases j) auto
    then have "xs ! j' \<in> set xs" using Cons.prems(3) by simp
    then show ?thesis using Cons.prems(1) 0 j' by auto
  next
    case (Suc i')
    show ?thesis
    proof (cases j)
      case 0
      have "xs ! i' \<in> set xs" using Cons.prems(2) Suc by simp
      then show ?thesis using Cons.prems(1) 0 Suc by auto
    next
      case (Suc j')
      then show ?thesis using Cons.IH [of i' j'] Cons.prems \<open>i = Suc i'\<close> by auto
    qed
  qed
qed

lemma workerDBSCAN_returns:
  assumes "\<forall>p e. fst ` set (search p e) \<subseteq> set points"
  shows "\<exists>cs. workerDBSCAN c search chunk = Some cs
           \<and> distinct (concat cs)
           \<and> set chunk \<subseteq> set (concat cs)
           \<and> set (concat cs) \<subseteq> set chunk \<union> set points
           \<and> (\<forall>cl \<in> set cs. cl \<noteq> [])"
proof -
  have nb: "set (getValidNeighbors c search p (1 - minThreshold c)) \<subseteq> set points" for p
    using getValidNeighbors_subset [of c search p] assms by blast
  show ?thesis
    using scanChunk_returns [where U = "set points" and clusters = "[]" and visited = "{}"
            and chunk = chunk and minPts = 2, OF _ nb]
    by (auto simp: workerDBSCAN_def)
qed

text \<open>
  Claim C10. When the searches only return points of a finite collection (the points of
  the tree), \<open>workerDBSCAN\<close> returns, the clusters it returns are pairwise disjoint, and
  every point of the chunk lies in exactly one of them.
\<close>

theorem workerDBSCAN_partition:
  assumes "\<forall>p e. fst ` set (search p e) \<subseteq> set points"
  shows "\<exists>cs. workerDBSCAN c search chunk = Some cs
           \<and> (\<forall>i < length cs. \<forall>j < length cs. i \<noteq> j \<longrightarrow> set (cs ! i) \<inter> set (cs ! j) = {})
           \<and> (\<forall>p \<in> set chunk. \<exists>!i. i < length cs \<and> p \<in> set (cs ! i))"
proof -
  obtain cs where cs: "workerDBSCAN c search chunk = Some cs"
    and d: "distinct (concat cs)" and sub: "set chunk \<subseteq> set (concat cs)"
    using workerDBSCAN_returns [OF assms] by blast
  have dis: "set (cs ! i) \<inter> set (cs ! j) = {}" if "i < length cs" "j < length cs" "i \<noteq> j" for i j
    using distinct_concat_disjoint [OF d that] .
  have ex1: "\<exists>!i. i < length cs \<and> p \<in> set (cs ! i)" if "p \<in> set chunk" for p
  proof -
    have "p \<in> set (concat cs)" using sub that by blast
    then obtain cl where "cl \<in> set cs" "p \<in> set cl" by auto
    then obtain i where i: "i < length cs" "p \<in> set (cs ! i)" by (auto simp: in_set_conv_nth)
    show ?thesis
    proof (rule ex1I [of _ i])
      show "i < length cs \<and> p \<in> set (cs ! i)" using i by simp
    next
      fix j assume "j < length cs \<and> p \<in> set (cs ! j)"
      then show "j = i" using dis [of i j] i by auto
    qed
  qed
  show ?thesis using cs dis ex1 by blast
qed

theorem workerDBSCAN_partition_witness:
  "\<exists>cs. workerDBSCAN
          \<lparr>similarityConfig = \<lparr>imageSimilarityThreshold = 9 / 10,
              imageVideoSimilarityThreshold = 4 / 5, videoSimilarityThreshold = 7 / 10,
              stepSize = 1\<rparr>,
            mediaProcessor = (\<lambda>f. \<lparr>media = \<lparr>duration = 0, frames = []\<rparr>,
              metadata = \<lparr>imageDate = None, gpsLatitude = None, gpsLongitude = None,
                cameraModel = None, width = 0, height = 0\<rparr>,
              fileStats = \<lparr>size' = 1\<rparr>\<rparr>),
            vpSearch = (\<lambda>files p e. [])\<rparr>
          (\<lambda>p e. if p = ''c'' then [(''c'', Fin 0)] else [(''a'', Fin 0), (''b'', Fin 0)])
          [''a'', ''b'', ''c''] = Some cs
        \<and> (\<forall>i < length cs. \<forall>j < length cs. i \<noteq> j \<longrightarrow> set (cs ! i) \<inter> set (cs ! j) = {})
        \<and> (\<forall>p \<in> set [''a'', ''b'', ''c'']. \<exists>!i. i < length cs \<and> p \<in> set (cs ! i))"
proof -
  have "\<forall>p e. fst ` set ((\<lambda>p e. if p = ''c'' then [(''c'', Fin 0)]
                                else [(''a'', Fin 0), (''b'', Fin 0)]) p (e::real))
               \<subseteq> set [''a'', ''b'', ''c'']"
    by simp
  then show ?thesis by (rule workerDBSCAN_partition)
qed

subsection \<open>Density-reachability and the expansion loop\<close>

lemma densityReachable_unvisited:
  "q \<in> densityReachable N minPts V S \<Longrightarrow> q \<notin> V"
  by (induction rule: densityReachable.induct) auto

lemma densityReachable_Nil: "densityReachable N minPts V [] = {}"
proof -
  have "q \<notin> densityReachable N minPts V []" for q
  proof
    assume "q \<in> densityReachable N minPts V []"
    then show False by (induction rule: densityReachable.induct) auto
  qed
  then show ?thesis by blast
qed

lemma densityReachable_pop_visited:
  assumes "cur \<in> V"
  shows "densityReachable N minPts V (s1 @ [cur]) = densityReachable N minPts V s1"
proof (intro set_eqI iffI)
  fix q assume "q \<in> densityReachable N minPts V (s1 @ [cur])"
  then show "q \<in> densityReachable N minPts V s1"
  proof (induction rule: densityReachable.induct)
    case (seed q)
    then have "q \<in> set s1" using assms by auto
    then show ?case using seed by - (rule densityReachable.seed, auto)
  next
    case (grow u q)
    then show ?case by - (rule densityReachable.grow [of u], auto)
  qed
next
  fix q assume "q \<in> densityReachable N minPts V s1"
  then show "q \<in> densityReachable N minPts V (s1 @ [cur])"
  proof (induction rule: densityReachable.induct)
    case (seed q)
    then show ?case by - (rule densityReachable.seed, auto)
  next
    case (grow u q)
    then show ?case by - (rule densityReachable.grow [of u], auto)
  qed
qed

lemma densityReachable_pop_new:
  assumes "cur \<notin> V"
  shows "densityReachable N minPts V (s1 @ [cur]) =
           insert cur (densityReachable N minPts (insert cur V)
             (if minPts \<le> length (N cur)
              then s1 @ filter (\<lambda>neighbor. neighbor \<notin> insert cur V) (N cur) else s1))"
    (is "?L = insert cur ?R")
proof (intro set_eqI iffI)
  fix q assume "q \<in> ?L"
  then show "q \<in> insert cur ?R"
  proof (induction rule: densityReachable.induct)
    case (seed q)
    show ?case
    proof (cases "q = cur")
      case False
      then have "q \<in> ?R" using seed by - (rule densityReachable.seed, auto)
      then show ?thesis by simp
    qed simp
  next
    case (grow u q)
    show ?case
    proof (cases "q = cur")
      case False
      then have nv: "q \<notin> insert cur V" using grow by simp
      show ?thesis
      proof (cases "u = cur")
        case True
        then have "q \<in> ?R" using grow nv by - (rule densityReachable.seed, auto)
        then show ?thesis by simp
      next
        case False
        then have "u \<in> ?R" using grow.IH by simp
        then have "q \<in> ?R" using grow.hyps nv by - (rule densityReachable.grow [of u], auto)
        then show ?thesis by simp
      qed
    qed simp
  qed
next
  fix q assume "q \<in> insert cur ?R"
  then consider "q = cur" | "q \<in> ?R" by blast
  then show "q \<in> ?L"
  proof cases
    case 1
    then show ?thesis using assms by - (rule densityReachable.seed, auto)
  next
    case 2
    have c: "cur \<in> ?L" using assms by - (rule densityReachable.seed, auto)
    from 2 show ?thesis
    proof (induction rule: densityReachable.induct)
      case (seed q)
      then have qv: "q \<notin> V" by simp
      show ?case
      proof (cases "q \<in> set s1")
        case True
        then show ?thesis using qv by - (rule densityReachable.seed, auto)
      next
        case False
        then have "minPts \<le> length (N cur)" "q \<in> set (N cur)"
          using seed by (auto split: if_splits)
        then show ?thesis using c qv by - (rule densityReachable.grow [of cur], auto)
      qed
    next
      case (grow u q)
      then show ?case by - (rule densityReachable.grow [of u], auto)
    qed
  qed
qed

lemma expandCluster_reach:
  assumes fin: "finite U"
    and nb: "\<And>p. set (getValidNeighbors c search p eps) \<subseteq> U"
    and st: "set stack \<subseteq> U"
  shows "\<exists>cluster'.
           expandCluster c search eps minPts stack visited cluster =
             Some (visited \<union> densityReachable (\<lambda>p. getValidNeighbors c search p eps)
                                minPts visited stack, cluster')"
  using st
proof (induction "card (U - visited)" arbitrary: stack visited cluster rule: less_induct)
  case less
  let ?N = "\<lambda>p. getValidNeighbors c search p eps"
  show ?case
    using less.prems
  proof (induction stack arbitrary: cluster rule: rev_induct)
    case Nil
    show ?case by (subst expandCluster.simps) (simp add: densityReachable_Nil)
  next
    case (snoc current stack1)
    show ?case
    proof (cases "current \<in> visited")
      case True
      have "set stack1 \<subseteq> U" using snoc.prems by simp
      then obtain cluster' where
        "expandCluster c search eps minPts stack1 visited cluster =
           Some (visited \<union> densityReachable ?N minPts visited stack1, cluster')"
        using snoc.IH [of cluster] by blast
      moreover have "expandCluster c search eps minPts (stack1 @ [current]) visited cluster
                       = expandCluster c search eps minPts stack1 visited cluster"
        using True by (subst expandCluster.simps) simp
      ultimately have "expandCluster c search eps minPts (stack1 @ [current]) visited cluster =
           Some (visited \<union> densityReachable ?N minPts visited (stack1 @ [current]), cluster')"
        by (simp only: densityReachable_pop_visited [OF True])
      then show ?thesis by (rule exI)
    next
      case False
      let ?v1 = "insert current visited"
      let ?c1 = "setAdd current cluster"
      let ?stack2 = "if minPts \<le> length (?N current)
                     then stack1 @ filter (\<lambda>neighbor. neighbor \<notin> ?v1) (?N current) else stack1"
      have cur: "current \<in> U" using snoc.prems by simp
      have "U - ?v1 \<subset> U - visited" using cur False by auto
      then have dec: "card (U - ?v1) < card (U - visited)"
        using fin by (simp add: psubset_card_mono)
      have s2: "set ?stack2 \<subseteq> U" using snoc.prems nb [of current] by auto
      obtain cluster' where
        r: "expandCluster c search eps minPts ?stack2 ?v1 ?c1 =
              Some (?v1 \<union> densityReachable ?N minPts ?v1 ?stack2, cluster')"
        using less.hyps [OF dec s2, of ?c1] by blast
      have e: "expandCluster c search eps minPts (stack1 @ [current]) visited cluster
                 = expandCluster c search eps minPts ?stack2 ?v1 ?c1"
        using False by (subst expandCluster.simps) simp
      have "densityReachable ?N minPts visited (stack1 @ [current])
              = insert current (densityReachable ?N minPts ?v1 ?stack2)"
        by (rule densityReachable_pop_new [OF False])
      then have eq: "visited \<union> densityReachable ?N minPts visited (stack1 @ [current])
              = ?v1 \<union> densityReachable ?N minPts ?v1 ?stack2"
        by (simp only: Un_insert_left Un_insert_right)
      have "expandCluster c search eps minPts (stack1 @ [current]) visited cluster
              = Some (visited \<union> densityReachable ?N minPts visited (stack1 @ [current]),
                      cluster')"
        unfolding eq e by (rule r)
      then show ?thesis by (rule exI)
    qed
  qed
qed

lemma expandCluster_cluster:
  assumes fin: "finite U"
    and nb: "\<And>p. set (getValidNeighbors c search p eps) \<subseteq> U"
    and st: "set stack \<subseteq> U"
  shows "\<exists>cluster'.
           expandCluster c search eps minPts stack visited cluster =
             Some (visited \<union> densityReachable (\<lambda>p. getValidNeighbors c search p eps)
                                minPts visited stack, cluster')
           \<and> set cluster' = set cluster
                \<union> densityReachable (\<lambda>p. getValidNeighbors c search p eps) minPts visited stack
           \<and> (distinct cluster \<longrightarrow> distinct cluster')"
proof -
  let ?R = "densityReachable (\<lambda>p. getValidNeighbors c search p eps) minPts visited stack"
  obtain cluster' where r: "expandCluster c search eps minPts stack visited cluster
                              = Some (visited \<union> ?R, cluster')"
    using expandCluster_reach [OF fin nb st, of minPts visited cluster] by blast
  obtain v2 c2 where r2: "expandCluster c search eps minPts stack visited cluster = Some (v2, c2)"
    and s: "set c2 = set cluster \<union> (v2 - visited)" and d: "distinct cluster \<longrightarrow> distinct c2"
    using expandCluster_returns [where P = "\<lambda>q. True" and minPts = minPts
            and visited = visited and cluster = cluster, OF fin nb st]
    by blast
  have "v2 = visited \<union> ?R" "c2 = cluster'" using r r2 by auto
  moreover have "(visited \<union> ?R) - visited = ?R"
    by (auto dest: densityReachable_unvisited)
  ultimately have "set cluster' = set cluster \<union> ?R" "distinct cluster \<longrightarrow> distinct cluster'"
    using s d by simp_all
  then show ?thesis using r by blast
qed

subsection \<open>The scan, one point at a time\<close>

lemma workerDBSCAN_Nil: "workerDBSCAN c search [] = Some []"
  by (simp add: workerDBSCAN_def)

lemma workerDBSCAN_snoc:
  assumes "\<forall>p e. fst ` set (search p e) \<subseteq> set points"
  shows "\<exists>cs0 cs1.
           workerDBSCAN c search chunk = Some cs0
         \<and> workerDBSCAN c search (chunk @ [p]) = Some cs1
         \<and> (p \<in> set (concat cs0) \<longrightarrow> cs1 = cs0)
         \<and> (p \<notin> set (concat cs0) \<longrightarrow>
              length (getValidNeighbors c search p (1 - minThreshold c)) < 2 \<longrightarrow>
              cs1 = cs0 @ [[p]])
         \<and> (p \<notin> set (concat cs0) \<longrightarrow>
              2 \<le> length (getValidNeighbors c search p (1 - minThreshold c)) \<longrightarrow>
              (\<exists>cluster. cs1 = cs0 @ [cluster] \<and> distinct cluster
                 \<and> set cluster = insert p
                      (densityReachable (\<lambda>q. getValidNeighbors c search q (1 - minThreshold c)) 2
                         (insert p (set (concat cs0)))
                         (getValidNeighbors c search p (1 - minThreshold c)))))"
proof -
  let ?eps = "1 - minThreshold c"
  let ?N = "\<lambda>p. getValidNeighbors c search p ?eps"
  have nb: "set (?N q) \<subseteq> set points" for q
    using getValidNeighbors_subset [of c search q] assms by blast
  have fin: "finite (set points)" by simp
  obtain cs0 where cs0: "scanChunk c search ?eps 2 chunk {} [] = Some cs0"
    using scanChunk_returns [where U = "set points" and clusters = "[]" and visited = "{}"
            and chunk = chunk and minPts = 2, OF fin nb]
    by auto
  have w0: "workerDBSCAN c search chunk = Some cs0" using cs0 by (simp add: workerDBSCAN_def)
  have app: "scanChunk c search ?eps 2 (chunk @ [p]) {} [] =
               scanChunk c search ?eps 2 [p] (set (concat cs0)) cs0"
    using scanChunk_append [where U = "set points" and clusters = "[]" and visited = "{}"
            and xs = chunk and ys = "[p]" and minPts = 2, OF fin nb] cs0
    by simp
  have w1: "workerDBSCAN c search (chunk @ [p]) = scanChunk c search ?eps 2 [p] (set (concat cs0)) cs0"
    using app by (simp add: workerDBSCAN_def)
  show ?thesis
  proof (cases "p \<in> set (concat cs0)")
    case True
    have "workerDBSCAN c search (chunk @ [p]) = Some cs0"
      unfolding w1 using True by simp
    then show ?thesis using w0 True by auto
  next
    case False
    show ?thesis
    proof (cases "length (?N p) < 2")
      case True
      have "workerDBSCAN c search (chunk @ [p]) = Some (cs0 @ [[p]])"
        unfolding w1 using False True by simp
      then show ?thesis using w0 False True by auto
    next
      case big: False
      let ?v1 = "insert p (set (concat cs0))"
      let ?R = "densityReachable ?N 2 ?v1 (?N p)"
      obtain cluster where
        e: "expandCluster c search ?eps 2 (?N p) ?v1 [p] = Some (?v1 \<union> ?R, cluster)"
        and s: "set cluster = set [p] \<union> ?R"
        and d: "distinct [p] \<longrightarrow> distinct cluster"
        using expandCluster_cluster [where stack = "?N p" and visited = ?v1
                and cluster = "[p]" and minPts = 2, OF fin nb nb]
        by blast
      have "scanChunk c search ?eps 2 [p] (set (concat cs0)) cs0
              = scanChunk c search ?eps 2 [] (?v1 \<union> ?R) (cs0 @ [cluster])"
        using False big e by (rule scanChunk_expand)
      then have "workerDBSCAN c search (chunk @ [p]) = Some (cs0 @ [cluster])"
        unfolding w1 by simp
      moreover have "distinct cluster" using d by simp
      moreover have "set cluster = insert p ?R" using s by simp
      ultimately show ?thesis using w0 False big by auto
    qed
  qed
qed

lemma workerDBSCAN_unvisited_singleton:
  assumes "\<forall>p e. fst ` set (search p e) \<subseteq> set points"
  shows "\<exists>cs. workerDBSCAN c search chunk = Some cs
           \<and> (\<forall>pre q post cs0.
                 chunk = pre @ q # post \<longrightarrow> workerDBSCAN c search pre = Some cs0 \<longrightarrow>
                 q \<notin> set (concat cs0) \<longrightarrow>
                 length (getValidNeighbors c search q (1 - minThreshold c)) < 2 \<longrightarrow>
                 [q] \<in> set cs)"
proof -
  let ?eps = "1 - minThreshold c"
  let ?N = "\<lambda>p. getValidNeighbors c search p ?eps"
  have nb: "set (?N p) \<subseteq> set points" for p
    using getValidNeighbors_subset [of c search p] assms by blast
  have fin: "finite (set points)" by simp
  obtain cs where cs: "scanChunk c search ?eps 2 chunk {} [] = Some cs"
    using scanChunk_returns [where U = "set points" and clusters = "[]" and visited = "{}"
            and chunk = chunk and minPts = 2, OF fin nb]
    by auto
  have w: "workerDBSCAN c search chunk = Some cs" using cs by (simp add: workerDBSCAN_def)
  have seeds: "[p] \<in> set cs"
    if ch: "chunk = pre @ p # post" and pre: "workerDBSCAN c search pre = Some cs0"
      and new: "p \<notin> set (concat cs0)" and few: "length (?N p) < 2"
    for pre p post cs0
  proof -
    have pre': "scanChunk c search ?eps 2 pre {} [] = Some cs0"
      using pre by (simp add: workerDBSCAN_def)
    obtain cs0' where "scanChunk c search ?eps 2 pre {} [] = Some cs0'"
      and d0: "distinct (concat cs0')" and n0: "\<forall>cl \<in> set cs0'. cl \<noteq> []"
      using scanChunk_returns [where U = "set points" and clusters = "[]" and visited = "{}"
            and chunk = pre and minPts = 2, OF fin nb]
      by auto
    then have d0: "distinct (concat cs0)" and n0: "\<forall>cl \<in> set cs0. cl \<noteq> []"
      using pre' by auto
    have "scanChunk c search ?eps 2 (pre @ p # post) {} [] =
            scanChunk c search ?eps 2 (p # post) (set (concat cs0)) cs0"
      using scanChunk_append [where U = "set points" and clusters = "[]" and visited = "{}"
              and xs = pre and ys = "p # post" and minPts = 2, OF fin nb] pre'
      by simp
    also have "\<dots> = scanChunk c search ?eps 2 post (insert p (set (concat cs0))) (cs0 @ [[p]])"
      using new few by (rule scanChunk_single)
    finally have run: "scanChunk c search ?eps 2 post (insert p (set (concat cs0))) (cs0 @ [[p]])
                         = Some cs"
      using cs ch by simp
    have d1: "distinct (concat (cs0 @ [[p]]))" using d0 new by auto
    have s1: "set (concat (cs0 @ [[p]])) = insert p (set (concat cs0))" by auto
    have n1: "\<forall>cl \<in> set (cs0 @ [[p]]). cl \<noteq> []" using n0 by auto
    have "\<exists>cs'. scanChunk c search ?eps 2 post (insert p (set (concat cs0))) (cs0 @ [[p]])
                  = Some cs' \<and> (\<exists>new. cs' = (cs0 @ [[p]]) @ new)"
      using scanChunk_returns [where U = "set points" and chunk = post and minPts = 2,
              OF fin nb d1 s1 n1]
      by blast
    then show ?thesis using run by auto
  qed
  show ?thesis using w seeds by (intro exI [of _ cs] conjI allI impI) blast+
qed

lemma getValidNeighbors_filter:
  "getValidNeighbors c search point eps =
     map fst (filter (\<lambda>(q, d). q = point \<or>
        jge (jsub (Fin 1) d)
          (Fin (if duration (media (mediaProcessor c point)) = 0
                     \<and> duration (media (mediaProcessor c q)) = 0
                then imageSimilarityThreshold (similarityConfig c)
                else if duration (media (mediaProcessor c point)) = 0
                     \<or> duration (media (mediaProcessor c q)) = 0
                then imageVideoSimilarityThreshold (similarityConfig c)
                else videoSimilarityThreshold (similarityConfig c))))
       (search point eps))"
  unfolding getValidNeighbors_def getAdaptiveThreshold_def Let_def
  by (rule arg_cong [where f = "map fst"], rule filter_cong) auto

text \<open>
  Claim C2, as the code has it. With \<open>eps\<close> one minus the least of the three thresholds and
  \<open>minPts = 2\<close>, and when the searches only return points of the tree: the scan of no point
  gives no cluster, and scanning one more point \<open>p\<close> after a chunk keeps the clusters of
  the chunk and
  \<^item> adds nothing when a cluster of the chunk holds \<open>p\<close> already,
  \<^item> adds the singleton \<open>[p]\<close> when no cluster holds \<open>p\<close> and \<open>p\<close> has fewer than 2 validated
    neighbours,
  \<^item> adds otherwise one cluster: \<open>p\<close> and the points density-reachable from the validated
    neighbours of \<open>p\<close> through points that no cluster holds yet.

  So a point with fewer than 2 validated neighbours is a singleton cluster of the result
  whenever the scan reaches it unvisited, that is, whenever no cluster of the scan of the
  points before it holds it. \<open>getValidNeighbors\<close> keeps, in the order of the search,
  exactly the found neighbours that are the point itself or whose \<open>1 - distance\<close> reaches
  the threshold of the two media kinds.
\<close>

theorem workerDBSCAN_density:
  assumes "\<forall>p e. fst ` set (search p e) \<subseteq> set points"
  shows "(let eps = 1 - min (min (imageSimilarityThreshold (similarityConfig c))
                               (imageVideoSimilarityThreshold (similarityConfig c)))
                          (videoSimilarityThreshold (similarityConfig c));
              minPts = 2;
              neighborsOf = (\<lambda>q. getValidNeighbors c search q eps)
          in workerDBSCAN c search [] = Some []
           \<and> (\<exists>cs0 cs1.
                 workerDBSCAN c search chunk = Some cs0
               \<and> workerDBSCAN c search (chunk @ [p]) = Some cs1
               \<and> (p \<in> set (concat cs0) \<longrightarrow> cs1 = cs0)
               \<and> (p \<notin> set (concat cs0) \<longrightarrow> length (neighborsOf p) < minPts \<longrightarrow>
                    cs1 = cs0 @ [[p]])
               \<and> (p \<notin> set (concat cs0) \<longrightarrow> minPts \<le> length (neighborsOf p) \<longrightarrow>
                    (\<exists>cluster. cs1 = cs0 @ [cluster] \<and> distinct cluster
                       \<and> set cluster = insert p
                            (densityReachable neighborsOf minPts
                               (insert p (set (concat cs0))) (neighborsOf p)))))
           \<and> (\<exists>cs. workerDBSCAN c search chunk = Some cs
                \<and> (\<forall>pre q post cs0.
                      chunk = pre @ q # post \<longrightarrow> workerDBSCAN c search pre = Some cs0 \<longrightarrow>
                      q \<notin> set (concat cs0) \<longrightarrow> length (neighborsOf q) < minPts \<longrightarrow>
                      [q] \<in> set cs)))
       \<and> (\<forall>point eps. getValidNeighbors c search point eps =
             map fst (filter (\<lambda>(q, d). q = point \<or>
                jge (jsub (Fin 1) d)
                  (Fin (if duration (media (mediaProcessor c point)) = 0
                             \<and> duration (media (mediaProcessor c q)) = 0
                        then imageSimilarityThreshold (similarityConfig c)
                        else if duration (media (mediaProcessor c point)) = 0
                             \<or> duration (media (mediaProcessor c q)) = 0
                        then imageVideoSimilarityThreshold (similarityConfig c)
                        else videoSimilarityThreshold (similarityConfig c))))
               (search point eps)))"
proof -
  have eps: "1 - min (min (imageSimilarityThreshold (similarityConfig c))
                          (imageVideoSimilarityThreshold (similarityConfig c)))
                     (videoSimilarityThreshold (similarityConfig c)) = 1 - minThreshold c"
    by (simp add: minThreshold_def)
  show ?thesis
    unfolding Let_def eps
    by (intro conjI allI workerDBSCAN_Nil workerDBSCAN_snoc [OF assms]
          workerDBSCAN_unvisited_singleton [OF assms] getValidNeighbors_filter)
qed

theorem workerDBSCAN_density_witness:
  "(\<exists>cluster.
      workerDBSCAN
        \<lparr>similarityConfig = \<lparr>imageSimilarityThreshold = 9 / 10,
            imageVideoSimilarityThreshold = 4 / 5, videoSimilarityThreshold = 7 / 10,
            stepSize = 1\<rparr>,
          mediaProcessor = (\<lambda>f. \<lparr>media = \<lparr>duration = 0, frames = []\<rparr>,
            metadata = \<lparr>imageDate = None, gpsLatitude = None, gpsLongitude = None,
              cameraModel = None, width = 0, height = 0\<rparr>,
            fileStats = \<lparr>size' = 1\<rparr>\<rparr>),
          vpSearch = (\<lambda>files p e. [])\<rparr>
        (\<lambda>p e. if p = ''c'' then [(''c'', Fin 0)]
                else if p = ''a'' \<or> p = ''b'' then [(''a'', Fin 0), (''b'', Fin 0)] else [])
        [''a''] = Some [cluster]
      \<and> distinct cluster \<and> set cluster = {''a'', ''b''})
   \<and> (\<exists>cs.
      workerDBSCAN
        \<lparr>similarityConfig = \<lparr>imageSimilarityThreshold = 9 / 10,
            imageVideoSimilarityThreshold = 4 / 5, videoSimilarityThreshold = 7 / 10,
            stepSize = 1\<rparr>,
          mediaProcessor = (\<lambda>f. \<lparr>media = \<lparr>duration = 0, frames = []\<rparr>,
            metadata = \<lparr>imageDate = None, gpsLatitude = None, gpsLongitude = None,
              cameraModel = None, width = 0, height = 0\<rparr>,
            fileStats = \<lparr>size' = 1\<rparr>\<rparr>),
          vpSearch = (\<lambda>files p e. [])\<rparr>
        (\<lambda>p e. if p = ''c'' then [(''c'', Fin 0)]
                else if p = ''a'' \<or> p = ''b'' then [(''a'', Fin 0), (''b'', Fin 0)] else [])
        [''a'', ''b'', ''c''] = Some cs
      \<and> [''c''] \<in> set cs)"
proof -
  let ?c = "\<lparr>similarityConfig = \<lparr>imageSimilarityThreshold = 9 / 10,
              imageVideoSimilarityThreshold = 4 / 5, videoSimilarityThreshold = 7 / 10,
              stepSize = 1\<rparr>,
            mediaProcessor = (\<lambda>f. \<lparr>media = \<lparr>duration = 0, frames = []\<rparr>,
              metadata = \<lparr>imageDate = None, gpsLatitude = None, gpsLongitude = None,
                cameraModel = None, width = 0, height = 0\<rparr>,
              fileStats = \<lparr>size' = 1\<rparr>\<rparr>),
            vpSearch = (\<lambda>files p e. [])\<rparr>"
  let ?s = "\<lambda>p (e::real). if p = ''c'' then [(''c'', Fin 0)]
                  else if p = ''a'' \<or> p = ''b'' then [(''a'', Fin 0), (''b'', Fin 0)] else []"
  let ?N = "\<lambda>p. if p = ''c'' then [''c''] else if p = ''a'' \<or> p = ''b'' then [''a'', ''b''] else []"
  have N: "getValidNeighbors ?c ?s p e = ?N p" for p e
    by (simp add: getValidNeighbors_def getAdaptiveThreshold_def jsub_def jge_def)
  have h: "\<forall>p e. fst ` set (?s p e) \<subseteq> set [''a'', ''b'', ''c'']"
    by auto
  have "densityReachable ?N 2 {''a''} ([''a''] @ [''b''])
          = insert ''b'' (densityReachable ?N 2 (insert ''b'' {''a''}) ([] @ [''a'']))"
    by (subst densityReachable_pop_new) simp_all
  also have "\<dots> = {''b''}"
    by (subst densityReachable_pop_visited) (simp_all add: densityReachable_Nil)
  finally have R: "densityReachable ?N 2 {''a''} [''a'', ''b''] = {''b''}" by simp
  note T = workerDBSCAN_density [OF h, of ?c "[]" "''a''", unfolded Let_def N append_Nil]
  note T1 = T [THEN conjunct1, THEN conjunct2, THEN conjunct1]
  from T1 obtain cs1 cluster where a1: "workerDBSCAN ?c ?s [''a''] = Some cs1"
    and a2: "cs1 = [cluster]" "distinct cluster"
            "set cluster = insert ''a'' (densityReachable ?N 2 {''a''} [''a'', ''b''])"
    by (auto simp: workerDBSCAN_Nil)
  have first: "\<exists>cluster. workerDBSCAN ?c ?s [''a''] = Some [cluster]
                 \<and> distinct cluster \<and> set cluster = {''a'', ''b''}"
    using a1 a2 unfolding R by blast
  have pre: "workerDBSCAN ?c ?s [''a'', ''b''] = Some [[''a'', ''b'']]"
    by code_simp
  note S = workerDBSCAN_density [OF h, of ?c "[''a'', ''b'', ''c'']" "''c''", unfolded Let_def N]
  note S1 = S [THEN conjunct1, THEN conjunct2, THEN conjunct2]
  from S1 obtain cs where b0: "workerDBSCAN ?c ?s [''a'', ''b'', ''c''] = Some cs"
    and b1: "\<forall>pre q post cs0.
               [''a'', ''b'', ''c''] = pre @ q # post \<longrightarrow>
               workerDBSCAN ?c ?s pre = Some cs0 \<longrightarrow>
               q \<notin> set (concat cs0) \<longrightarrow> length (?N q) < 2 \<longrightarrow> [q] \<in> set cs"
    by (elim exE conjE)
  have "[''c''] \<in> set cs"
    using b1 [rule_format, of "[''a'', ''b'']" "''c''" "[]" "[[''a'', ''b'']]"] pre by simp
  then have second: "\<exists>cs. workerDBSCAN ?c ?s [''a'', ''b'', ''c''] = Some cs \<and> [''c''] \<in> set cs"
    using b0 by blast
  show ?thesis using first second by (rule conjI)
qed

text \<open>
  Claim C2 as stated fails where an earlier expansion has taken the point: the search of
  \<open>a\<close> finds \<open>a\<close> and \<open>p\<close>, the search of \<open>p\<close> finds \<open>p\<close> alone. The validated neighbourhood of
  \<open>p\<close> has one member, and \<open>p\<close> is in the cluster of \<open>a\<close>, not a singleton.
\<close>

theorem workerDBSCAN_absorbed_point:
  "workerDBSCAN
     \<lparr>similarityConfig = \<lparr>imageSimilarityThreshold = 9 / 10,
         imageVideoSimilarityThreshold = 4 / 5, videoSimilarityThreshold = 7 / 10,
         stepSize = 1\<rparr>,
       mediaProcessor = (\<lambda>f. \<lparr>media = \<lparr>duration = 0, frames = []\<rparr>,
         metadata = \<lparr>imageDate = None, gpsLatitude = None, gpsLongitude = None,
           cameraModel = None, width = 0, height = 0\<rparr>,
         fileStats = \<lparr>size' = 1\<rparr>\<rparr>),
       vpSearch = (\<lambda>files p e. [])\<rparr>
     (\<lambda>q e. if q = ''a'' then [(''a'', Fin 0), (''p'', Fin 0)]
             else if q = ''p'' then [(''p'', Fin 0)] else [])
     [''a'', ''p''] = Some [[''a'', ''p'']]
   \<and> getValidNeighbors
     \<lparr>similarityConfig = \<lparr>imageSimilarityThreshold = 9 / 10,
         imageVideoSimilarityThreshold = 4 / 5, videoSimilarityThreshold = 7 / 10,
         stepSize = 1\<rparr>,
       mediaProcessor = (\<lambda>f. \<lparr>media = \<lparr>duration = 0, frames = []\<rparr>,
         metadata = \<lparr>imageDate = None, gpsLatitude = None, gpsLongitude = None,
           cameraModel = None, width = 0, height = 0\<rparr>,
         fileStats = \<lparr>size' = 1\<rparr>\<rparr>),
       vpSearch = (\<lambda>files p e. [])\<rparr>
     (\<lambda>q e. if q = ''a'' then [(''a'', Fin 0), (''p'', Fin 0)]
             else if q = ''p'' then [(''p'', Fin 0)] else [])
     ''p'' (1 - min (min (9 / 10) (4 / 5)) (7 / 10)) = [''p'']"
  by code_simp

section \<open>Properties of the merge, the selection and the whole run\<close>

lemma relatedClusters_fold:
  "set (fold (\<lambda>element related.
               case m element of None \<Rightarrow> related
               | Some existingCluster \<Rightarrow> setAdd existingCluster related) cluster acc)
     = set acc \<union> {cl. \<exists>e \<in> set cluster. m e = Some cl}
   \<and> (distinct acc \<longrightarrow> distinct (fold (\<lambda>element related.
               case m element of None \<Rightarrow> related
               | Some existingCluster \<Rightarrow> setAdd existingCluster related) cluster acc))"
  by (induction cluster arbitrary: acc) (auto split: option.splits)

lemma set_relatedClusters:
  "set (relatedClusters m cluster) = {cl. \<exists>e \<in> set cluster. m e = Some cl}"
  using relatedClusters_fold [of m cluster "[]"] by (simp add: relatedClusters_def)

lemma distinct_relatedClusters: "distinct (relatedClusters m cluster)"
  using relatedClusters_fold [of m cluster "[]"] by (simp add: relatedClusters_def)

lemma setAll_fold:
  "fold (\<lambda>element m. m(element \<mapsto> c)) xs m e = (if e \<in> set xs then Some c else m e)"
  by (induction xs arbitrary: m) auto

lemma setAll_apply: "setAll m cl e = (if e \<in> set cl then Some cl else m e)"
  by (simp add: setAll_def setAll_fold)

lemma fold_setAdd:
  "set (fold setAdd xs acc) = set acc \<union> set xs \<and> (distinct acc \<longrightarrow> distinct (fold setAdd xs acc))"
  by (induction xs arbitrary: acc) auto

lemma mergedCluster_fold:
  "set (fold (\<lambda>relatedCluster mc. fold setAdd relatedCluster mc) related acc)
     = set acc \<union> \<Union> (set ` set related)
   \<and> (distinct acc \<longrightarrow>
        distinct (fold (\<lambda>relatedCluster mc. fold setAdd relatedCluster mc) related acc))"
proof (induction related arbitrary: acc)
  case Nil
  show ?case by simp
next
  case (Cons rc related)
  show ?case using Cons [of "fold setAdd rc acc"] fold_setAdd [of rc acc] by auto
qed

lemma splice_fold:
  assumes "set related \<subseteq> set merged" "distinct merged" "distinct related"
  shows "set (fold (\<lambda>relatedCluster mg. spliceIndexOf mg relatedCluster) related merged)
           = set merged - set related
         \<and> distinct (fold (\<lambda>relatedCluster mg. spliceIndexOf mg relatedCluster) related merged)"
  using assms
proof (induction related arbitrary: merged)
  case Nil
  then show ?case by simp
next
  case (Cons rc related)
  have rc: "rc \<in> set merged" using Cons.prems(1) by simp
  then have sp: "spliceIndexOf merged rc = remove1 rc merged" by (simp add: spliceIndexOf_def)
  have s1: "set (remove1 rc merged) = set merged - {rc}" using Cons.prems(2) by simp
  have "set related \<subseteq> set (remove1 rc merged)" using Cons.prems(1,3) s1 by auto
  moreover have "distinct (remove1 rc merged)" using Cons.prems(2) by simp
  moreover have "distinct related" using Cons.prems(3) by simp
  ultimately show ?case using Cons.IH [of "remove1 rc merged"] sp s1 by auto
qed

lemma mergeStep_inv:
  assumes inv: "mergeInv merged m" and ne: "cluster \<noteq> []" and di: "distinct cluster"
  shows "mergeInv (fst (mergeStep cluster (merged, m))) (snd (mergeStep cluster (merged, m)))
         \<and> \<Union> (set ` set (fst (mergeStep cluster (merged, m))))
             = \<Union> (set ` set merged) \<union> set cluster"
proof -
  let ?rel = "relatedClusters m cluster"
  have dm: "distinct merged"
    and nd: "\<forall>cl \<in> set merged. cl \<noteq> [] \<and> distinct cl"
    and dj: "\<forall>a \<in> set merged. \<forall>b \<in> set merged. a \<noteq> b \<longrightarrow> set a \<inter> set b = {}"
    and mp: "\<forall>e cl. m e = Some cl \<longleftrightarrow> cl \<in> set merged \<and> e \<in> set cl"
    using inv by (auto simp: mergeInv_def)
  have rel: "set ?rel = {cl \<in> set merged. set cl \<inter> set cluster \<noteq> {}}"
    using mp by (auto simp: set_relatedClusters)
  show ?thesis
  proof (cases "?rel = []")
    case True
    then have none: "\<forall>cl \<in> set merged. set cl \<inter> set cluster = {}" using rel by auto
    have step: "mergeStep cluster (merged, m) = (merged @ [cluster], setAll m cluster)"
      using True by (simp add: mergeStep_def)
    have notin: "cluster \<notin> set merged" using none ne by (cases cluster) auto
    have "mergeInv (merged @ [cluster]) (setAll m cluster)"
      unfolding mergeInv_def
    proof (intro conjI)
      show "distinct (merged @ [cluster])" using dm notin by simp
      show "\<forall>cl \<in> set (merged @ [cluster]). cl \<noteq> [] \<and> distinct cl" using nd ne di by auto
      show "\<forall>a \<in> set (merged @ [cluster]). \<forall>b \<in> set (merged @ [cluster]).
              a \<noteq> b \<longrightarrow> set a \<inter> set b = {}"
        using dj none by auto
      show "\<forall>e cl. setAll m cluster e = Some cl \<longleftrightarrow> cl \<in> set (merged @ [cluster]) \<and> e \<in> set cl"
        using mp none by (auto simp: setAll_apply)
    qed
    then show ?thesis using step by auto
  next
    case False
    let ?mc = "fold (\<lambda>relatedCluster mc. fold setAdd relatedCluster mc) ?rel cluster"
    let ?m1 = "fold (\<lambda>relatedCluster mg. spliceIndexOf mg relatedCluster) ?rel merged"
    have step: "mergeStep cluster (merged, m) = (?m1 @ [?mc], setAll m ?mc)"
      using False by (simp add: mergeStep_def Let_def)
    have smc: "set ?mc = set cluster \<union> \<Union> (set ` set ?rel)" and dmc: "distinct ?mc"
      using mergedCluster_fold [of ?rel cluster] di by auto
    have relsub: "set ?rel \<subseteq> set merged" using rel by auto
    have sm1: "set ?m1 = set merged - set ?rel" and dm1: "distinct ?m1"
      using splice_fold [OF relsub dm distinct_relatedClusters] by auto
    have keep: "set cl \<inter> set ?mc = {}" if "cl \<in> set ?m1" for cl
    proof -
      have c1: "cl \<in> set merged" and c2: "cl \<notin> set ?rel" using that sm1 by auto
      have "set cl \<inter> set cluster = {}" using c1 c2 rel by auto
      moreover have "set cl \<inter> set rc = {}" if "rc \<in> set ?rel" for rc
        using dj c1 c2 relsub that by (metis subsetD)
      ultimately show ?thesis using smc by auto
    qed
    have mcne: "?mc \<noteq> []" using smc ne by (cases cluster) auto
    have notin: "?mc \<notin> set ?m1"
    proof
      assume "?mc \<in> set ?m1"
      from keep [OF this] have "set ?mc = {}" by simp
      then show False using mcne by simp
    qed
    have inv': "mergeInv (?m1 @ [?mc]) (setAll m ?mc)"
      unfolding mergeInv_def
    proof (intro conjI)
      show "distinct (?m1 @ [?mc])" using dm1 notin by simp
      show "\<forall>cl \<in> set (?m1 @ [?mc]). cl \<noteq> [] \<and> distinct cl"
        using nd sm1 mcne dmc by auto
      show "\<forall>a \<in> set (?m1 @ [?mc]). \<forall>b \<in> set (?m1 @ [?mc]). a \<noteq> b \<longrightarrow> set a \<inter> set b = {}"
      proof (intro ballI impI)
        fix a b assume a: "a \<in> set (?m1 @ [?mc])" and b: "b \<in> set (?m1 @ [?mc])" and ab: "a \<noteq> b"
        show "set a \<inter> set b = {}"
        proof (cases "a = ?mc")
          case True
          then have "b \<in> set ?m1" using b ab by auto
          then show ?thesis using keep [of b] True by auto
        next
          case fa: False
          then have a1: "a \<in> set ?m1" using a by auto
          show ?thesis
          proof (cases "b = ?mc")
            case True
            then show ?thesis using keep [OF a1] by auto
          next
            case False
            then have "b \<in> set ?m1" using b by auto
            then show ?thesis using a1 ab dj sm1 by auto
          qed
        qed
      qed
      show "\<forall>e cl. setAll m ?mc e = Some cl \<longleftrightarrow> cl \<in> set (?m1 @ [?mc]) \<and> e \<in> set cl"
      proof (intro allI)
        fix e cl
        show "setAll m ?mc e = Some cl \<longleftrightarrow> cl \<in> set (?m1 @ [?mc]) \<and> e \<in> set cl"
        proof (cases "e \<in> set ?mc")
          case True
          have "cl = ?mc" if "cl \<in> set ?m1" "e \<in> set cl" using keep [OF that(1)] that(2) True by auto
          then show ?thesis using True by (auto simp: setAll_apply)
        next
          case False
          have "cl \<notin> set ?rel" if "e \<in> set cl" using that False smc by auto
          then show ?thesis using False mp sm1 by (auto simp: setAll_apply)
        qed
      qed
    qed
    have "\<Union> (set ` set (?m1 @ [?mc])) = \<Union> (set ` set merged) \<union> set cluster"
      using sm1 smc relsub by auto
    then show ?thesis using inv' step by simp
  qed
qed

lemma mergeFold_inv:
  assumes "mergeInv merged m" "\<forall>cl \<in> set clusters. cl \<noteq> [] \<and> distinct cl"
  shows "mergeInv (fst (fold mergeStep clusters (merged, m))) (snd (fold mergeStep clusters (merged, m)))
         \<and> \<Union> (set ` set (fst (fold mergeStep clusters (merged, m))))
             = \<Union> (set ` set merged) \<union> \<Union> (set ` set clusters)"
  using assms
proof (induction clusters arbitrary: merged m)
  case Nil
  then show ?case by simp
next
  case (Cons cluster clusters)
  obtain merged' m' where st: "mergeStep cluster (merged, m) = (merged', m')"
    by (cases "mergeStep cluster (merged, m)") auto
  have s: "mergeInv merged' m'"
    and u: "\<Union> (set ` set merged') = \<Union> (set ` set merged) \<union> set cluster"
    using mergeStep_inv [of merged m cluster] Cons.prems st by auto
  have "\<forall>cl \<in> set clusters. cl \<noteq> [] \<and> distinct cl" using Cons.prems(2) by simp
  from Cons.IH [OF s this] show ?case using st u by auto
qed

lemma mergeAndDeduplicate_partition:
  assumes "\<forall>cl \<in> set clusters. cl \<noteq> [] \<and> distinct cl"
  shows "distinct (concat (mergeAndDeduplicate clusters))
         \<and> set (concat (mergeAndDeduplicate clusters)) = set (concat clusters)
         \<and> (\<forall>cl \<in> set (mergeAndDeduplicate clusters). cl \<noteq> [])"
proof -
  have "mergeInv [] Map.empty" by (simp add: mergeInv_def)
  from mergeFold_inv [OF this assms]
  have inv: "mergeInv (mergeAndDeduplicate clusters) (snd (fold mergeStep clusters ([], Map.empty)))"
    and u: "\<Union> (set ` set (mergeAndDeduplicate clusters)) = \<Union> (set ` set clusters)"
    by (auto simp: mergeAndDeduplicate_def)
  let ?mg = "mergeAndDeduplicate clusters"
  have ne: "\<forall>cl \<in> set ?mg. cl \<noteq> []" using inv by (auto simp: mergeInv_def)
  then have "[] \<notin> set ?mg" by blast
  then have "removeAll [] ?mg = ?mg" by (rule removeAll_id)
  then have "distinct (concat ?mg)"
    using inv by (subst distinct_concat_iff) (auto simp: mergeInv_def)
  then show ?thesis using u ne by simp
qed

lemma those_map_Some:
  assumes "\<forall>x \<in> set xs. \<exists>y. f x = Some y \<and> P x y"
  shows "\<exists>ys. those (map f xs) = Some ys \<and> list_all2 P xs ys"
  using assms
proof (induction xs)
  case Nil
  then show ?case by simp
next
  case (Cons x xs)
  obtain y where y: "f x = Some y" "P x y" using Cons.prems by auto
  obtain ys where ys: "those (map f xs) = Some ys" "list_all2 P xs ys"
    using Cons.IH Cons.prems by auto
  show ?case using y ys by simp
qed

lemma set_batches: "\<Union> (set ` set (batches i files)) = set (drop i files)"
proof (induction i files rule: batches.induct)
  case (1 i files)
  show ?case
  proof (cases "i < length files")
    case True
    have "set (take 2048 (drop i files)) \<union> set (drop 2048 (drop i files)) = set (drop i files)"
      by (metis append_take_drop_id set_append)
    then show ?thesis
      using "1.IH" [OF True] True by (subst batches.simps) (simp add: add.commute)
  next
    case False
    then show ?thesis by (subst batches.simps) simp
  qed
qed

lemma parallelDBSCAN_partition:
  assumes "\<forall>fs q e. fst ` set (vpSearch c fs q e) \<subseteq> set fs"
  shows "\<exists>clusters. parallelDBSCAN c files = Some clusters
           \<and> distinct (concat clusters)
           \<and> set (concat clusters) = set files
           \<and> (\<forall>cl \<in> set clusters. cl \<noteq> [])"
proof -
  let ?P = "\<lambda>batch cs. distinct (concat cs) \<and> set batch \<subseteq> set (concat cs)
               \<and> set (concat cs) \<subseteq> set batch \<union> set files \<and> (\<forall>cl \<in> set cs. cl \<noteq> [])"
  have h: "\<forall>p e. fst ` set (vpSearch c files p e) \<subseteq> set files" using assms by blast
  have "\<forall>batch \<in> set (batches 0 files).
          \<exists>cs. workerDBSCAN c (vpSearch c files) batch = Some cs \<and> ?P batch cs"
    using workerDBSCAN_returns [OF h] by blast
  then obtain results where
    r: "those (map (workerDBSCAN c (vpSearch c files)) (batches 0 files)) = Some results"
    and all2: "list_all2 ?P (batches 0 files) results"
    using those_map_Some [of "batches 0 files" "workerDBSCAN c (vpSearch c files)" ?P] by blast
  have bsub: "set batch \<subseteq> set files" if "batch \<in> set (batches 0 files)" for batch
    using set_batches [of 0 files] that by auto
  have len: "length (batches 0 files) = length results"
    and nth: "\<And>i. i < length results \<Longrightarrow> ?P (batches 0 files ! i) (results ! i)"
    using all2 by (simp_all add: list_all2_conv_all_nth)
  have each: "\<exists>batch \<in> set (batches 0 files). ?P batch cs" if mem: "cs \<in> set results" for cs
  proof -
    obtain i where i: "i < length results" "cs = results ! i"
      using mem by (auto simp: in_set_conv_nth)
    have "batches 0 files ! i \<in> set (batches 0 files)" using i(1) len by simp
    then show ?thesis using nth [OF i(1)] i(2) by blast
  qed
  have cover: "\<exists>cs \<in> set results. ?P batch cs" if mem: "batch \<in> set (batches 0 files)" for batch
  proof -
    obtain i where i: "i < length results" "batch = batches 0 files ! i"
      using mem len by (auto simp: in_set_conv_nth)
    have "results ! i \<in> set results" using i(1) by simp
    then show ?thesis using nth [OF i(1)] i(2) by blast
  qed
  have ok: "\<forall>cl \<in> set (concat results). cl \<noteq> [] \<and> distinct cl"
  proof
    fix cl assume "cl \<in> set (concat results)"
    then obtain cs where cs: "cs \<in> set results" "cl \<in> set cs" by auto
    then obtain batch where "?P batch cs" using each by blast
    then show "cl \<noteq> [] \<and> distinct cl" using cs(2) by (auto simp: distinct_concat_iff)
  qed
  have un: "set (concat (concat results)) = set files"
  proof
    show "set (concat (concat results)) \<subseteq> set files"
    proof
      fix x assume "x \<in> set (concat (concat results))"
      then obtain cs where cs: "cs \<in> set results" "x \<in> set (concat cs)" by auto
      then obtain batch where "batch \<in> set (batches 0 files)" "?P batch cs" using each by blast
      then show "x \<in> set files" using cs(2) bsub by blast
    qed
    show "set files \<subseteq> set (concat (concat results))"
    proof
      fix x assume "x \<in> set files"
      then obtain batch where b: "batch \<in> set (batches 0 files)" "x \<in> set batch"
        using set_batches [of 0 files] by auto
      then obtain cs where cs: "cs \<in> set results" "?P batch cs" using cover by blast
      then have "x \<in> set (concat cs)" using b(2) by blast
      then show "x \<in> set (concat (concat results))" using cs(1) by auto
    qed
  qed
  have "parallelDBSCAN c files = Some (mergeAndDeduplicate (concat results))"
    using r by (simp add: parallelDBSCAN_def)
  then show ?thesis
    using mergeAndDeduplicate_partition [OF ok] un by auto
qed

lemma comparator_positive:
  "a \<noteq> NaN \<Longrightarrow> b \<noteq> NaN \<Longrightarrow> jgt (jsub b a) (Fin 0) \<longleftrightarrow> jlt a b"
  by (cases a; cases b) (auto simp: jgt_def jsub_def)

lemma jle_total: "a \<noteq> NaN \<Longrightarrow> b \<noteq> NaN \<Longrightarrow> \<not> jlt a b \<Longrightarrow> jle b a"
  by (cases a; cases b) auto

lemma jlt_jle: "jlt a b \<Longrightarrow> jle a b"
  by (cases a; cases b) auto

lemma jle_trans: "jle a b \<Longrightarrow> jle b c \<Longrightarrow> jle a c"
  by (cases a; cases b; cases c) auto

lemma set_insertScored: "set (insertScored a xs) = insert a (set xs)"
  by (induction xs) auto

lemma set_sortScored: "set (sortScored xs) = set xs"
  by (induction xs) (auto simp: sortScored_def set_insertScored)

lemma sorted_insertScored:
  assumes "sorted_wrt (\<lambda>x y. jle (snd y) (snd x)) xs"
    and "snd a \<noteq> NaN" "\<forall>x \<in> set xs. snd x \<noteq> NaN"
  shows "sorted_wrt (\<lambda>x y. jle (snd y) (snd x)) (insertScored a xs)"
  using assms
proof (induction xs)
  case Nil
  then show ?case by simp
next
  case (Cons b bs)
  have nb: "snd b \<noteq> NaN" using Cons.prems(3) by simp
  show ?case
  proof (cases "jlt (snd a) (snd b)")
    case True
    then have "jle (snd a) (snd b)" by (rule jlt_jle)
    then show ?thesis
      using True Cons comparator_positive [OF Cons.prems(2) nb]
      by (auto simp: set_insertScored)
  next
    case False
    then have ba: "jle (snd b) (snd a)" using jle_total [OF Cons.prems(2) nb] by simp
    have "jle (snd x) (snd a)" if "x \<in> set bs" for x
      using Cons.prems(1) that ba by (auto intro: jle_trans)
    then show ?thesis
      using False Cons.prems(1) ba comparator_positive [OF Cons.prems(2) nb] by auto
  qed
qed

lemma sorted_sortScored:
  assumes "\<forall>x \<in> set xs. snd x \<noteq> NaN"
  shows "sorted_wrt (\<lambda>x y. jle (snd y) (snd x)) (sortScored xs)"
  using assms
proof (induction xs)
  case Nil
  then show ?case by (simp add: sortScored_def)
next
  case (Cons a xs)
  have "sorted_wrt (\<lambda>x y. jle (snd y) (snd x)) (insertScored a (sortScored xs))"
    using Cons by (intro sorted_insertScored) (auto simp: set_sortScored)
  then show ?case by (simp add: sortScored_def)
qed

lemma jle_refl: "a \<noteq> NaN \<Longrightarrow> jle a a"
  by (cases a) auto

lemma set_scoreEntries: "set (scoreEntries selector entries) = set entries"
  by (force simp: scoreEntries_def set_sortScored)

lemma length_insertScored: "length (insertScored a xs) = Suc (length xs)"
  by (induction xs) auto

lemma length_scoreEntries: "length (scoreEntries selector entries) = length entries"
  by (induction entries) (auto simp: scoreEntries_def sortScored_def length_insertScored)

lemma hd_scoreEntries_mem:
  "entries \<noteq> [] \<Longrightarrow> hd (scoreEntries selector entries) \<in> set entries"
proof -
  assume "entries \<noteq> []"
  then have "scoreEntries selector entries \<noteq> []"
    using length_scoreEntries [of selector entries] by auto
  then have "hd (scoreEntries selector entries) \<in> set (scoreEntries selector entries)" by simp
  then show ?thesis by (simp add: set_scoreEntries)
qed

lemma hd_scoreEntries_best:
  assumes "\<forall>x \<in> set entries. calculateEntryScore (selector x) \<noteq> NaN" and "x \<in> set entries"
  shows "jge (calculateEntryScore (selector (hd (scoreEntries selector entries))))
             (calculateEntryScore (selector x))"
proof -
  let ?ps = "map (\<lambda>entry. (entry, calculateEntryScore (selector entry))) entries"
  let ?s = "sortScored ?ps"
  have nn: "\<forall>p \<in> set ?ps. snd p \<noteq> NaN" using assms(1) by auto
  have srt: "sorted_wrt (\<lambda>x y. jle (snd y) (snd x)) ?s" by (rule sorted_sortScored [OF nn])
  have pair: "snd p = calculateEntryScore (selector (fst p))" if "p \<in> set ?s" for p
    using that by (auto simp: set_sortScored)
  have xin: "(x, calculateEntryScore (selector x)) \<in> set ?s"
    using assms(2) by (auto simp: set_sortScored)
  then obtain h t where ht: "?s = h # t" by (cases ?s) auto
  have hd: "hd (scoreEntries selector entries) = fst h"
    by (simp add: scoreEntries_def ht)
  have hs: "snd h = calculateEntryScore (selector (fst h))" using pair [of h] ht by simp
  have "jle (calculateEntryScore (selector x)) (snd h)"
  proof (cases "(x, calculateEntryScore (selector x)) = h")
    case True
    then have "snd h = calculateEntryScore (selector x)" by auto
    then show ?thesis using assms jle_refl by simp
  next
    case False
    then have "(x, calculateEntryScore (selector x)) \<in> set t" using xin ht by auto
    then show ?thesis using srt ht by auto
  qed
  then show ?thesis using hd hs by (simp add: jge_def)
qed

lemma calculateEntryScore_not_NaN:
  assumes "validFileInfo fileInfo"
  shows "calculateEntryScore fileInfo \<noteq> NaN"
proof -
  have d: "0 < duration (media fileInfo) + 1" and s: "0 \<le> size' (fileStats fileInfo)"
    and w: "0 \<le> width (metadata fileInfo) * height (metadata fileInfo)"
    using assms by (auto simp: validFileInfo_def)
  have l: "jmul (jlog (duration (media fileInfo) + 1)) (Fin 100)
             = Fin (ln (duration (media fileInfo) + 1) * 100)"
    using d by (simp add: jlog_def)
  have q: "jsqrt (width (metadata fileInfo) * height (metadata fileInfo))
             = Fin (sqrt (width (metadata fileInfo) * height (metadata fileInfo)))"
    using w by (simp add: jsqrt_def)
  have z: "jmul (jlog (size' (fileStats fileInfo))) (Fin 5) = NInf
           \<or> (\<exists>b. jmul (jlog (size' (fileStats fileInfo))) (Fin 5) = Fin b)"
    using s by (cases "size' (fileStats fileInfo) = 0") (auto simp: jlog_def)
  have "\<exists>a. calculateEntryScore fileInfo
              = jadd (Fin a) (jmul (jlog (size' (fileStats fileInfo))) (Fin 5))"
    unfolding calculateEntryScore_def Let_def l q by (auto split: if_splits)
  then show ?thesis using z by auto
qed

lemma set_newSet [simp]: "set (newSet xs) = set xs"
  using fold_setAdd [of xs "[]"] by (simp add: newSet_def)

lemma distinct_newSet [simp]: "distinct (newSet xs)"
  using fold_setAdd [of xs "[]"] by (simp add: newSet_def)

lemma selectRepresentatives_image:
  assumes "2 \<le> length cl" "\<forall>f \<in> set cl. duration (media (selector f)) = 0"
  shows "selectRepresentatives dedup selector cl = Some [hd (scoreEntries selector cl)]"
proof -
  have "cl \<noteq> []" using assms(1) by auto
  then have "hd (scoreEntries selector cl) \<in> set cl" by (rule hd_scoreEntries_mem)
  then have "duration (media (selector (hd (scoreEntries selector cl)))) = 0"
    using assms(2) by blast
  then show ?thesis using assms(1) by (simp add: selectRepresentatives_def Let_def)
qed

lemma selectsWithin_image:
  assumes "2 \<le> length cl" "\<forall>f \<in> set cl. duration (media (selector f)) = 0"
  shows "selectsWithin dedup selector cl"
proof -
  have "cl \<noteq> []" using assms(1) by auto
  then have "hd (scoreEntries selector cl) \<in> set cl" by (rule hd_scoreEntries_mem)
  then show ?thesis
    using selectRepresentatives_image [OF assms] by (simp add: selectsWithin_def)
qed

lemma selectsWithin_dedup:
  assumes len: "2 \<le> length cl"
    and D1: "\<forall>fs. (\<forall>f \<in> set fs. duration (media (selector f)) = 0) \<longrightarrow>
                  (\<exists>r. dedup fs = Some r \<and> set (uniqueFiles r) \<subseteq> set fs)"
  shows "selectsWithin dedup selector cl"
proof (cases "duration (media (selector (hd (scoreEntries selector cl)))) = 0")
  case True
  have "cl \<noteq> []" using len by auto
  then have "hd (scoreEntries selector cl) \<in> set cl" by (rule hd_scoreEntries_mem)
  moreover have "selectRepresentatives dedup selector cl = Some [hd (scoreEntries selector cl)]"
    using True len by (simp add: selectRepresentatives_def Let_def)
  ultimately show ?thesis by (simp add: selectsWithin_def)
next
  case False
  let ?sorted = "scoreEntries selector cl"
  let ?best = "hd ?sorted"
  let ?pc = "filter (\<lambda>entry.
                      let fileInfo = selector entry
                      in duration (media fileInfo) = 0
                         \<and> getQuality (selector ?best) \<le> getQuality fileInfo
                         \<and> (imageDate (metadata (selector ?best)) = None
                              \<or> imageDate (metadata fileInfo) \<noteq> None))
                   ?sorted"
  have "cl \<noteq> []" using len by auto
  then have best: "?best \<in> set cl" by (rule hd_scoreEntries_mem)
  have sr: "selectRepresentatives dedup selector cl = handleMultiFrameBest dedup selector ?sorted"
    using False len by (simp add: selectRepresentatives_def Let_def)
  have pcsub: "set ?pc \<subseteq> set cl" by (auto simp: set_scoreEntries)
  have pcimg: "\<forall>f \<in> set ?pc. duration (media (selector f)) = 0" by (auto simp: Let_def)
  obtain r where r: "dedup ?pc = Some r" and ru: "set (uniqueFiles r) \<subseteq> set ?pc"
    using D1 pcimg by blast
  have "handleMultiFrameBest dedup selector ?sorted
          = Some (if ?pc \<noteq> [] then [?best] @ uniqueFiles r else [?best])"
    using r by (simp add: handleMultiFrameBest_def Let_def)
  then show ?thesis
    using sr best ru pcsub by (auto simp: selectsWithin_def)
qed

lemma allEntries_snoc:
  "allEntries \<lparr>uniqueFiles = u, duplicateSets = ds @ [d]\<rparr>
     = allEntries \<lparr>uniqueFiles = u, duplicateSets = ds\<rparr> @ representatives d @ duplicates d"
  by (simp add: allEntries_def)

lemma set_allEntries_add:
  "set (allEntries \<lparr>uniqueFiles = u @ [x], duplicateSets = ds\<rparr>)
     = insert x (set (allEntries \<lparr>uniqueFiles = u, duplicateSets = ds\<rparr>))"
  by (auto simp: allEntries_def)

lemma distinct_allEntries_add:
  "distinct (allEntries \<lparr>uniqueFiles = u @ [x], duplicateSets = ds\<rparr>)
     \<longleftrightarrow> distinct (allEntries \<lparr>uniqueFiles = u, duplicateSets = ds\<rparr>)
         \<and> x \<notin> set (allEntries \<lparr>uniqueFiles = u, duplicateSets = ds\<rparr>)"
  by (auto simp: allEntries_def)

lemma processResultsLoop_partition:
  assumes sel: "\<forall>cl \<in> set clusters. 2 \<le> length cl \<longrightarrow> selectsWithin dedup selector cl"
    and dc: "distinct (concat clusters)"
    and ne: "\<forall>cl \<in> set clusters. cl \<noteq> []"
    and da: "distinct (allEntries \<lparr>uniqueFiles = u, duplicateSets = ds\<rparr>)"
    and dj: "set (allEntries \<lparr>uniqueFiles = u, duplicateSets = ds\<rparr>) \<inter> set (concat clusters) = {}"
  shows "\<exists>r. processResultsLoop dedup selector clusters u ds = Some r
           \<and> distinct (allEntries r)
           \<and> set (allEntries r)
               = set (allEntries \<lparr>uniqueFiles = u, duplicateSets = ds\<rparr>) \<union> set (concat clusters)"
  using assms
proof (induction clusters arbitrary: u ds)
  case Nil
  then show ?case by simp
next
  case (Cons cl rest)
  let ?A = "allEntries \<lparr>uniqueFiles = u, duplicateSets = ds\<rparr>"
  have sel': "\<forall>cl \<in> set rest. 2 \<le> length cl \<longrightarrow> selectsWithin dedup selector cl"
    using Cons.prems(1) by simp
  have dc': "distinct (concat rest)" using Cons.prems(2) by simp
  have ne': "\<forall>cl \<in> set rest. cl \<noteq> []" using Cons.prems(3) by simp
  have dcl: "distinct cl" and clrest: "set cl \<inter> set (concat rest) = {}"
    using Cons.prems(2) by auto
  have Acl: "set ?A \<inter> set cl = {}" and Arest: "set ?A \<inter> set (concat rest) = {}"
    using Cons.prems(5) by auto
  show ?case
  proof (cases "length cl = 1")
    case True
    then obtain x where x: "cl = [x]" by (cases cl) auto
    have xu: "x \<notin> set u" using Acl x by (auto simp: allEntries_def)
    then have add: "setAdd (hd cl) u = u @ [x]" using x by (simp add: setAdd_def)
    have xA: "x \<notin> set ?A" using Acl x by auto
    have da1: "distinct (allEntries \<lparr>uniqueFiles = u @ [x], duplicateSets = ds\<rparr>)"
      using Cons.prems(4) xA by (simp add: distinct_allEntries_add)
    have dj1: "set (allEntries \<lparr>uniqueFiles = u @ [x], duplicateSets = ds\<rparr>)
                 \<inter> set (concat rest) = {}"
      using Arest clrest x by (simp add: set_allEntries_add)
    obtain r where r: "processResultsLoop dedup selector rest (u @ [x]) ds = Some r"
      and r1: "distinct (allEntries r)"
      and r2: "set (allEntries r) = set (allEntries \<lparr>uniqueFiles = u @ [x], duplicateSets = ds\<rparr>)
                 \<union> set (concat rest)"
      using Cons.IH [OF sel' dc' ne' da1 dj1] by blast
    have "processResultsLoop dedup selector (cl # rest) u ds = Some r"
      using True add r by simp
    moreover have "set (allEntries r) = set ?A \<union> set (concat (cl # rest))"
      using r2 x by (simp add: set_allEntries_add)
    ultimately show ?thesis using r1 by blast
  next
    case False
    moreover have "length cl \<noteq> 0" using Cons.prems(3) by simp
    ultimately have len: "2 \<le> length cl" by linarith
    then have "selectsWithin dedup selector cl" using Cons.prems(1) by simp
    then obtain reps where reps: "selectRepresentatives dedup selector cl = Some reps"
      and rsub: "set reps \<subseteq> set cl"
      by (auto simp: selectsWithin_def)
    let ?d = "\<lparr>bestFile = first reps, representatives = newSet reps,
                duplicates = newSet (filter (\<lambda>f. f \<notin> set (newSet reps)) cl)\<rparr>"
    have sd: "set (representatives ?d @ duplicates ?d) = set cl" using rsub by auto
    have dd: "distinct (representatives ?d @ duplicates ?d)" by auto
    have ae: "allEntries \<lparr>uniqueFiles = u, duplicateSets = ds @ [?d]\<rparr>
                = ?A @ representatives ?d @ duplicates ?d"
      by (rule allEntries_snoc)
    have da1: "distinct (allEntries \<lparr>uniqueFiles = u, duplicateSets = ds @ [?d]\<rparr>)"
      unfolding ae using Cons.prems(4) dd sd Acl by (simp only: distinct_append) blast?
    have dj1: "set (allEntries \<lparr>uniqueFiles = u, duplicateSets = ds @ [?d]\<rparr>)
                 \<inter> set (concat rest) = {}"
      unfolding ae using Arest clrest sd by (simp only: set_append) blast?
    obtain r where r: "processResultsLoop dedup selector rest u (ds @ [?d]) = Some r"
      and r1: "distinct (allEntries r)"
      and r2: "set (allEntries r) = set (allEntries \<lparr>uniqueFiles = u, duplicateSets = ds @ [?d]\<rparr>)
                 \<union> set (concat rest)"
      using Cons.IH [OF sel' dc' ne' da1 dj1] by blast
    have "processResultsLoop dedup selector (cl # rest) u ds = Some r"
      using False reps r by (simp add: Let_def)
    moreover have "set (allEntries r) = set ?A \<union> set (concat (cl # rest))"
      unfolding r2 ae using sd by (simp only: set_append concat.simps) blast?
    ultimately show ?thesis using r1 by blast
  qed
qed

lemma processResultsLoop_best:
  assumes sel: "\<forall>cl \<in> set clusters. 2 \<le> length cl \<longrightarrow> selectsWithin dedup selector cl"
    and ne: "\<forall>cl \<in> set clusters. cl \<noteq> []"
    and nn: "\<forall>f \<in> set (concat clusters). calculateEntryScore (selector f) \<noteq> NaN"
    and acc: "\<forall>d \<in> set ds. bestOfSet selector d"
  shows "\<exists>r. processResultsLoop dedup selector clusters u ds = Some r
           \<and> (\<forall>d \<in> set (duplicateSets r). bestOfSet selector d)"
  using assms
proof (induction clusters arbitrary: u ds)
  case Nil
  then show ?case by simp
next
  case (Cons cl rest)
  have sel': "\<forall>cl \<in> set rest. 2 \<le> length cl \<longrightarrow> selectsWithin dedup selector cl"
    using Cons.prems(1) by simp
  have ne': "\<forall>cl \<in> set rest. cl \<noteq> []" using Cons.prems(2) by simp
  have nn': "\<forall>f \<in> set (concat rest). calculateEntryScore (selector f) \<noteq> NaN"
    using Cons.prems(3) by simp
  have nncl: "\<forall>f \<in> set cl. calculateEntryScore (selector f) \<noteq> NaN"
    using Cons.prems(3) by simp
  show ?case
  proof (cases "length cl = 1")
    case True
    obtain r where "processResultsLoop dedup selector rest (setAdd (hd cl) u) ds = Some r"
      and "\<forall>d \<in> set (duplicateSets r). bestOfSet selector d"
      using Cons.IH [OF sel' ne' nn' Cons.prems(4)] by blast
    then show ?thesis using True by auto
  next
    case False
    moreover have "length cl \<noteq> 0" using Cons.prems(2) by simp
    ultimately have len: "2 \<le> length cl" by linarith
    then have "selectsWithin dedup selector cl" using Cons.prems(1) by simp
    then obtain reps where reps: "selectRepresentatives dedup selector cl = Some reps"
      and rne: "reps \<noteq> []" and rhd: "hd reps = hd (scoreEntries selector cl)"
      and rsub: "set reps \<subseteq> set cl"
      by (auto simp: selectsWithin_def)
    let ?d = "\<lparr>bestFile = first reps, representatives = newSet reps,
                duplicates = newSet (filter (\<lambda>f. f \<notin> set (newSet reps)) cl)\<rparr>"
    have fst: "first reps = Some (hd reps)" using rne by (cases reps) (auto simp: first_def)
    have mem: "hd reps \<in> set reps" using rne by simp
    have best: "jge (calculateEntryScore (selector (hd reps))) (calculateEntryScore (selector x))"
      if "x \<in> set cl" for x
      unfolding rhd by (rule hd_scoreEntries_best [OF nncl that])
    have "bestOfSet selector ?d"
      unfolding bestOfSet_def using fst mem best rsub by auto
    then have acc1: "\<forall>d \<in> set (ds @ [?d]). bestOfSet selector d" using Cons.prems(4) by simp
    obtain r where "processResultsLoop dedup selector rest u (ds @ [?d]) = Some r"
      and "\<forall>d \<in> set (duplicateSets r). bestOfSet selector d"
      using Cons.IH [OF sel' ne' nn' acc1] by blast
    then show ?thesis using False reps by (auto simp: Let_def)
  qed
qed

lemma deduplicateFiles_images:
  assumes search: "\<forall>fs q e. fst ` set (vpSearch c fs q e) \<subseteq> set fs"
    and img: "\<forall>f \<in> set files. duration (media (selector f)) = 0"
  shows "\<exists>r. deduplicateFiles (Suc depth) c selector files = Some r
           \<and> distinct (allEntries r) \<and> set (allEntries r) = set files"
proof -
  obtain clusters where p: "parallelDBSCAN c files = Some clusters"
    and dc: "distinct (concat clusters)" and sc: "set (concat clusters) = set files"
    and ne: "\<forall>cl \<in> set clusters. cl \<noteq> []"
    using parallelDBSCAN_partition [OF search] by blast
  have sel: "\<forall>cl \<in> set clusters. 2 \<le> length cl \<longrightarrow>
               selectsWithin (deduplicateFiles depth c selector) selector cl"
  proof (intro ballI impI)
    fix cl assume cl: "cl \<in> set clusters" "2 \<le> length cl"
    have "\<forall>f \<in> set cl. duration (media (selector f)) = 0" using cl(1) sc img by auto
    then show "selectsWithin (deduplicateFiles depth c selector) selector cl"
      by (rule selectsWithin_image [OF cl(2)])
  qed
  have "\<exists>r. processResultsLoop (deduplicateFiles depth c selector) selector clusters [] [] = Some r
           \<and> distinct (allEntries r)
           \<and> set (allEntries r)
               = set (allEntries \<lparr>uniqueFiles = [], duplicateSets = []\<rparr>) \<union> set (concat clusters)"
    by (rule processResultsLoop_partition [OF sel dc ne]) (simp_all add: allEntries_def)
  then show ?thesis using p sc by (auto simp: processResults_def allEntries_def)
qed

lemma deduplicateFiles_nested:
  assumes search: "\<forall>fs q e. fst ` set (vpSearch c fs q e) \<subseteq> set fs"
  shows "\<forall>fs. (\<forall>f \<in> set fs. duration (media (selector f)) = 0) \<longrightarrow>
              (\<exists>r. deduplicateFiles (Suc depth) c selector fs = Some r
                   \<and> set (uniqueFiles r) \<subseteq> set fs)"
proof (intro allI impI)
  fix fs assume "\<forall>f \<in> set fs. duration (media (selector f)) = 0"
  from deduplicateFiles_images [OF search this, of depth]
  obtain r where "deduplicateFiles (Suc depth) c selector fs = Some r"
    and "set (allEntries r) = set fs" by blast
  then show "\<exists>r. deduplicateFiles (Suc depth) c selector fs = Some r
                 \<and> set (uniqueFiles r) \<subseteq> set fs"
    by (auto simp: allEntries_def)
qed

text \<open>
  Claim C3. When a search in the tree built from a file list only returns files of that
  list, \<open>deduplicateFiles\<close> returns (two levels of calls are enough: the files handed to
  the inner call are still images, for which \<open>selectRepresentatives\<close> calls no further),
  and the unique files with the representatives and the duplicates of all the duplicate
  sets hold every input file exactly once, and nothing else.
\<close>

theorem deduplicateFiles_partition:
  assumes "\<forall>fs q e. fst ` set (vpSearch c fs q e) \<subseteq> set fs"
  shows "\<exists>r. deduplicateFiles (Suc (Suc depth)) c selector files = Some r
           \<and> distinct (allEntries r) \<and> set (allEntries r) = set files"
proof -
  obtain clusters where p: "parallelDBSCAN c files = Some clusters"
    and dc: "distinct (concat clusters)" and sc: "set (concat clusters) = set files"
    and ne: "\<forall>cl \<in> set clusters. cl \<noteq> []"
    using parallelDBSCAN_partition [OF assms] by blast
  have sel: "\<forall>cl \<in> set clusters. 2 \<le> length cl \<longrightarrow>
               selectsWithin (deduplicateFiles (Suc depth) c selector) selector cl"
    using selectsWithin_dedup [OF _ deduplicateFiles_nested [OF assms]] by blast
  have "\<exists>r. processResultsLoop (deduplicateFiles (Suc depth) c selector) selector clusters [] []
               = Some r
           \<and> distinct (allEntries r)
           \<and> set (allEntries r)
               = set (allEntries \<lparr>uniqueFiles = [], duplicateSets = []\<rparr>) \<union> set (concat clusters)"
    by (rule processResultsLoop_partition [OF sel dc ne]) (simp_all add: allEntries_def)
  then show ?thesis using p sc by (auto simp: processResults_def allEntries_def)
qed

theorem deduplicateFiles_partition_witness:
  "\<exists>r. deduplicateFiles (Suc (Suc 0))
          \<lparr>similarityConfig = \<lparr>imageSimilarityThreshold = 9 / 10,
              imageVideoSimilarityThreshold = 4 / 5, videoSimilarityThreshold = 7 / 10,
              stepSize = 1\<rparr>,
            mediaProcessor = (\<lambda>f. \<lparr>media = \<lparr>duration = 0, frames = []\<rparr>,
              metadata = \<lparr>imageDate = None, gpsLatitude = None, gpsLongitude = None,
                cameraModel = None, width = 0, height = 0\<rparr>,
              fileStats = \<lparr>size' = 1\<rparr>\<rparr>),
            vpSearch = (\<lambda>files p e. map (\<lambda>f. (f, Fin 0)) files)\<rparr>
          (\<lambda>f. \<lparr>media = \<lparr>duration = 0, frames = []\<rparr>,
              metadata = \<lparr>imageDate = None, gpsLatitude = None, gpsLongitude = None,
                cameraModel = None, width = 0, height = 0\<rparr>,
              fileStats = \<lparr>size' = 1\<rparr>\<rparr>)
          [''a'', ''b''] = Some r
        \<and> distinct (allEntries r) \<and> set (allEntries r) = set [''a'', ''b'']"
  by (rule deduplicateFiles_partition) auto

text \<open>
  Claim C4. For non-empty clusters of files with valid file information (so that no score
  is NaN), and searches that only return files of the list the tree was built from,
  \<open>processResults\<close> returns, and in every duplicate set of the result the best file is one
  of the representatives, no representative is a duplicate, and no file of the set has
  a score above that of the best file. (A duplicate set is made from every cluster that is
  no singleton, so here from every cluster of size at least 2.)
\<close>

theorem processResults_best_file:
  assumes "\<forall>fs q e. fst ` set (vpSearch c fs q e) \<subseteq> set fs"
    and "\<forall>cl \<in> set clusters. cl \<noteq> []"
    and "\<forall>f \<in> set (concat clusters). validFileInfo (selector f)"
  shows "\<exists>r. processResults (deduplicateFiles (Suc depth) c selector) selector clusters = Some r
           \<and> (\<forall>ds \<in> set (duplicateSets r).
                \<exists>best. bestFile ds = Some best \<and> best \<in> set (representatives ds)
                  \<and> set (representatives ds) \<inter> set (duplicates ds) = {}
                  \<and> (\<forall>x \<in> set (representatives ds) \<union> set (duplicates ds).
                        jge (calculateEntryScore (selector best))
                            (calculateEntryScore (selector x))))"
proof -
  have sel: "\<forall>cl \<in> set clusters. 2 \<le> length cl \<longrightarrow>
               selectsWithin (deduplicateFiles (Suc depth) c selector) selector cl"
    using selectsWithin_dedup [OF _ deduplicateFiles_nested [OF assms(1)]] by blast
  have nn: "\<forall>f \<in> set (concat clusters). calculateEntryScore (selector f) \<noteq> NaN"
    using assms(3) calculateEntryScore_not_NaN by blast
  have "\<exists>r. processResultsLoop (deduplicateFiles (Suc depth) c selector) selector clusters [] []
               = Some r
           \<and> (\<forall>d \<in> set (duplicateSets r). bestOfSet selector d)"
    by (rule processResultsLoop_best [OF sel assms(2) nn]) simp
  then show ?thesis by (simp add: processResults_def bestOfSet_def)
qed

theorem processResults_best_file_witness:
  "\<exists>r. processResults
          (deduplicateFiles (Suc 0)
             \<lparr>similarityConfig = \<lparr>imageSimilarityThreshold = 9 / 10,
                 imageVideoSimilarityThreshold = 4 / 5, videoSimilarityThreshold = 7 / 10,
                 stepSize = 1\<rparr>,
               mediaProcessor = (\<lambda>f. \<lparr>media = \<lparr>duration = 0, frames = []\<rparr>,
                 metadata = \<lparr>imageDate = None, gpsLatitude = None, gpsLongitude = None,
                   cameraModel = None, width = 0, height = 0\<rparr>,
                 fileStats = \<lparr>size' = 1\<rparr>\<rparr>),
               vpSearch = (\<lambda>files p e. map (\<lambda>f. (f, Fin 0)) files)\<rparr>
             (\<lambda>f. \<lparr>media = \<lparr>duration = if f = ''b'' then 3 else 0, frames = []\<rparr>,
                 metadata = \<lparr>imageDate = None, gpsLatitude = None, gpsLongitude = None,
                   cameraModel = None, width = 0, height = 0\<rparr>,
                 fileStats = \<lparr>size' = 1\<rparr>\<rparr>))
          (\<lambda>f. \<lparr>media = \<lparr>duration = if f = ''b'' then 3 else 0, frames = []\<rparr>,
              metadata = \<lparr>imageDate = None, gpsLatitude = None, gpsLongitude = None,
                cameraModel = None, width = 0, height = 0\<rparr>,
              fileStats = \<lparr>size' = 1\<rparr>\<rparr>)
          [[''a'', ''b'']] = Some r
        \<and> (\<forall>ds \<in> set (duplicateSets r).
              \<exists>best. bestFile ds = Some best \<and> best \<in> set (representatives ds)
                \<and> set (representatives ds) \<inter> set (duplicates ds) = {}
                \<and> (\<forall>x \<in> set (representatives ds) \<union> set (duplicates ds).
                      jge (calculateEntryScore
                             \<lparr>media = \<lparr>duration = if best = ''b'' then 3 else 0, frames = []\<rparr>,
                               metadata = \<lparr>imageDate = None, gpsLatitude = None,
                                 gpsLongitude = None, cameraModel = None, width = 0, height = 0\<rparr>,
                               fileStats = \<lparr>size' = 1\<rparr>\<rparr>)
                          (calculateEntryScore
                             \<lparr>media = \<lparr>duration = if x = ''b'' then 3 else 0, frames = []\<rparr>,
                               metadata = \<lparr>imageDate = None, gpsLatitude = None,
                                 gpsLongitude = None, cameraModel = None, width = 0, height = 0\<rparr>,
                               fileStats = \<lparr>size' = 1\<rparr>\<rparr>)))"
  by (rule processResults_best_file) (auto simp: validFileInfo_def)

end
